theory Spec2Isabelle
  imports Main "HOL-Library.Word"
begin

unbundle bit_operations_syntax

section \<open>Machine types and constants of Mem.c\<close>

text \<open>
  The embedding fixes the LP64 data model: pointers and \<open>size_t\<close> are 64-bit words,
  \<open>int\<close> is a 32-bit word. \<open>struct _block\<close> then occupies 24 bytes
  (8 for \<open>size\<close>, 8 for \<open>next\<close>, 1 for \<open>free\<close>, 3 of declared padding and
  4 of tail padding). The null pointer is the word 0. Arithmetic on \<open>size_t\<close> wraps,
  as unsigned arithmetic does in C. Conversions from \<open>size_t\<close> to \<open>int\<close> keep the
  low 32 bits and conversions from \<open>int\<close> to \<open>size_t\<close> extend the sign, which is
  what the usual compilers do. The \<open>int\<close> counters wrap in the model.
\<close>

type_synonym addr = "64 word"
type_synonym size_t = "64 word"
type_synonym cint = "32 word"

definition sizeof_block :: size_t where
  "sizeof_block = 24"

definition INT_MAX :: cint where
  "INT_MAX = 2147483647"

text \<open>\<^verbatim>\<open>#define ALIGN4(s) (((((s) - 1) >> 2) << 2) + 4)\<close>\<close>

definition ALIGN4 :: "size_t \<Rightarrow> size_t" where
  "ALIGN4 s = push_bit 2 (drop_bit 2 (s - 1)) + 4"

text \<open>\<^verbatim>\<open>BLOCK_DATA(b) = b + 1\<close> and \<^verbatim>\<open>BLOCK_HEADER(ptr) = (struct _block *)ptr - 1\<close>,
  in bytes.\<close>

definition BLOCK_DATA :: "addr \<Rightarrow> addr" where
  "BLOCK_DATA b = b + sizeof_block"

definition BLOCK_HEADER :: "addr \<Rightarrow> addr" where
  "BLOCK_HEADER p = p - sizeof_block"

section \<open>Blocks and the process state\<close>

text \<open>
  \<open>struct _block\<close>. The fields are \<open>size\<close>, \<open>next\<close> and \<open>free\<close> in the
  source; they carry the prefix \<open>b\<close> here because \<open>size\<close> and \<open>next\<close> are
  taken in Isabelle.
\<close>

record block =
  bsize :: size_t
  bnext :: addr
  bfree :: bool

text \<open>
  The process state: the memory, the globals of Mem.c and the part of the operating
  system the allocator talks to. Memory is split in two stores: \<open>blocks\<close> gives the
  header found at an address and \<open>bytes\<close> the payload byte found at an address.
  A header access never changes a payload byte and the other way round, and two headers
  at different addresses never share a byte. This is the memory of the program as long as
  the headers in use neither overlap each other nor lie in a payload that is written, as
  on an address-ordered heap; a run that writes over a header through a payload pointer,
  or sets up a header across another one, is outside the model from that write on.
  \<open>exit_hooks\<close> counts the registrations of \<open>printStatistics\<close> with \<open>atexit\<close>.
  \<open>brk\<close> is the program break, \<open>brk_min\<close> and \<open>brk_max\<close> bound the values the
  operating system accepts for it.
\<close>

record state =
  blocks :: "addr \<Rightarrow> block"
  bytes :: "addr \<Rightarrow> 8 word"
  heapList :: addr
  actualLast :: addr
  atexit_registered :: cint
  exit_hooks :: nat
  num_mallocs :: cint
  num_frees :: cint
  num_reuses :: cint
  num_grows :: cint
  num_splits :: cint
  num_coalesces :: cint
  num_blocks :: cint
  num_requested :: cint
  max_heap :: cint
  brk :: addr
  brk_min :: addr
  brk_max :: addr

text \<open>The state at process start, with the break at \<open>b\<close> and the limit at \<open>m\<close>.\<close>

definition initial :: "addr \<Rightarrow> addr \<Rightarrow> state" where
  "initial b m =
     \<lparr> blocks = (\<lambda>_. \<lparr> bsize = 0, bnext = 0, bfree = False \<rparr>),
       bytes = (\<lambda>_. 0),
       heapList = 0, actualLast = 0, atexit_registered = 0, exit_hooks = 0,
       num_mallocs = 0, num_frees = 0, num_reuses = 0, num_grows = 0, num_splits = 0,
       num_coalesces = 0, num_blocks = 0, num_requested = 0, max_heap = 0,
       brk = b, brk_min = b, brk_max = m \<rparr>"

datatype error = AssertionFailed

datatype strategy = FirstFit | BestFit | WorstFit | NextFit

text \<open>
  Modelled from the spec: the heap-extension primitive \<open>sbrk\<close> of the operating system,
  which is not part of the repository: a request for additional contiguous bytes appended
  to the data segment, which returns the base address of the new region or the failure
  sentinel \<open>(void *)-1\<close>. As in POSIX the increment is a signed word (\<open>intptr_t\<close>);
  the request is granted when the new break stays between \<open>brk_min\<close> and \<open>brk_max\<close>,
  and \<open>sbrk(0)\<close> returns the current break.
\<close>

definition sbrk :: "64 word \<Rightarrow> state \<Rightarrow> addr \<times> state" where
  "sbrk incr s =
     (let new = uint (brk s) + sint incr in
      if uint (brk_min s) \<le> new \<and> new \<le> uint (brk_max s)
      then (brk s, s\<lparr>brk := word_of_int new\<rparr>)
      else (- 1, s))"

section \<open>findFreeBlock\<close>

text \<open>
  Each \<open>while\<close> loop of \<open>findFreeBlock\<close> walks \<open>next\<close> pointers, so it need not
  terminate on a cyclic list: the loops are partial functions and \<open>None\<close> is
  divergence. A loop returns the final \<open>curr\<close> and the value left in \<open>*last\<close>.
  The variables \<open>curr\<close> and \<open>last\<close> of the source are \<open>cur\<close> and
  \<open>lst\<close> here, and \<open>next\<close> in \<open>malloc\<close> is \<open>nxt\<close>: the source's
  names are taken in Isabelle.
\<close>

text \<open>\<^verbatim>\<open>while (curr && !(curr->free && curr->size >= size)) { *last = curr; curr = curr->next; }\<close>\<close>

partial_function (option) first_fit_loop ::
  "(addr \<Rightarrow> block) \<Rightarrow> size_t \<Rightarrow> addr \<Rightarrow> addr \<Rightarrow> (addr \<times> addr) option" where
  "first_fit_loop h sz cur lst =
     (if cur \<noteq> 0 \<and> \<not> (bfree (h cur) \<and> sz \<le> bsize (h cur))
      then first_fit_loop h sz (bnext (h cur)) cur
      else Some (cur, lst))"

text \<open>
  Best fit: \<open>smallest\<close> is an \<open>int\<close>; the comparison \<open>curr->size < smallest\<close>
  converts it to \<open>size_t\<close> and the assignment \<open>smallest = curr->size\<close> truncates.
  The loop returns \<open>bestFit\<close>.
\<close>

partial_function (option) best_fit_loop ::
  "(addr \<Rightarrow> block) \<Rightarrow> size_t \<Rightarrow> addr \<Rightarrow> addr \<Rightarrow> cint \<Rightarrow> addr \<Rightarrow> (addr \<times> addr) option" where
  "best_fit_loop h sz cur lst smallest bestFit =
     (if cur \<noteq> 0
      then (if bfree (h cur) \<and> sz \<le> bsize (h cur) \<and> bsize (h cur) < scast smallest
            then best_fit_loop h sz (bnext (h cur)) cur (ucast (bsize (h cur))) cur
            else best_fit_loop h sz (bnext (h cur)) cur smallest bestFit)
      else Some (bestFit, lst))"

text \<open>Worst fit, with \<open>int largest\<close> handled the same way. The loop returns \<open>worstFit\<close>.\<close>

partial_function (option) worst_fit_loop ::
  "(addr \<Rightarrow> block) \<Rightarrow> size_t \<Rightarrow> addr \<Rightarrow> addr \<Rightarrow> cint \<Rightarrow> addr \<Rightarrow> (addr \<times> addr) option" where
  "worst_fit_loop h sz cur lst largest worstFit =
     (if cur \<noteq> 0
      then (if bfree (h cur) \<and> sz \<le> bsize (h cur) \<and> scast largest < bsize (h cur)
            then worst_fit_loop h sz (bnext (h cur)) cur (ucast (bsize (h cur))) cur
            else worst_fit_loop h sz (bnext (h cur)) cur largest worstFit)
      else Some (worstFit, lst))"

text \<open>
  Next fit, first loop: it starts at \<open>actualLast\<close> and stores every block it leaves in
  \<open>actualLast\<close> too. It returns \<open>curr\<close>, \<open>*last\<close> and \<open>actualLast\<close>. The second
  loop of next fit, from \<open>heapList\<close>, is the loop of first fit.
\<close>

partial_function (option) next_fit_loop ::
  "(addr \<Rightarrow> block) \<Rightarrow> size_t \<Rightarrow> addr \<Rightarrow> addr \<Rightarrow> addr \<Rightarrow> (addr \<times> addr \<times> addr) option" where
  "next_fit_loop h sz cur lst al =
     (if cur \<noteq> 0 \<and> \<not> (bfree (h cur) \<and> sz \<le> bsize (h cur))
      then next_fit_loop h sz (bnext (h cur)) cur cur
      else Some (cur, lst, al))"

declare first_fit_loop.simps [code]
declare best_fit_loop.simps [code]
declare worst_fit_loop.simps [code]
declare next_fit_loop.simps [code]

text \<open>
  \<open>findFreeBlock(&last, size)\<close> under the strategy chosen at build time (exactly one of
  the macros \<open>FIT\<close>, \<open>BEST\<close>, \<open>WORST\<close>, \<open>NEXT\<close> is defined as 0). The result is
  the returned block, the value left in \<open>*last\<close> and the state (next fit writes
  \<open>actualLast\<close>).
\<close>

definition findFreeBlock ::
  "strategy \<Rightarrow> state \<Rightarrow> addr \<Rightarrow> size_t \<Rightarrow> (addr \<times> addr \<times> state) option" where
  "findFreeBlock strat s lst sz =
     (case strat of
        FirstFit \<Rightarrow>
          (case first_fit_loop (blocks s) sz (heapList s) lst of
             None \<Rightarrow> None
           | Some (cur, lst') \<Rightarrow> Some (cur, lst', s))
      | BestFit \<Rightarrow>
          (case best_fit_loop (blocks s) sz (heapList s) lst INT_MAX 0 of
             None \<Rightarrow> None
           | Some (cur, lst') \<Rightarrow> Some (cur, lst', s))
      | WorstFit \<Rightarrow>
          (case worst_fit_loop (blocks s) sz (heapList s) lst 0 0 of
             None \<Rightarrow> None
           | Some (cur, lst') \<Rightarrow> Some (cur, lst', s))
      | NextFit \<Rightarrow>
          (case next_fit_loop (blocks s) sz (actualLast s) lst (actualLast s) of
             None \<Rightarrow> None
           | Some (cur, lst1, al) \<Rightarrow>
               (if cur = 0
                then (case first_fit_loop (blocks s) sz (heapList s) lst1 of
                        None \<Rightarrow> None
                      | Some (cur', lst') \<Rightarrow> Some (cur', lst', s\<lparr>actualLast := al\<rparr>))
                else Some (cur, lst1, s\<lparr>actualLast := al\<rparr>))))"

section \<open>growHeap\<close>

text \<open>A write to fields of the header at address \<open>a\<close>.\<close>

definition upd_block :: "addr \<Rightarrow> (block \<Rightarrow> block) \<Rightarrow> state \<Rightarrow> state" where
  "upd_block a f s = s\<lparr>blocks := (blocks s)(a := f (blocks s a))\<rparr>"

text \<open>
  The writes of \<open>growHeap\<close> once the new block \<open>curr\<close> has been obtained, in the
  order of the source: the head of the list when it is still null, the link from
  \<open>last\<close>, the three fields of the new header, and the counters.
\<close>

definition new_block :: "addr \<Rightarrow> addr \<Rightarrow> size_t \<Rightarrow> state \<Rightarrow> state" where
  "new_block cur lst sz s =
     (let s1 = (if heapList s = 0 then s\<lparr>heapList := cur\<rparr> else s);
          s2 = (if lst \<noteq> 0 then upd_block lst (\<lambda>b. b\<lparr>bnext := cur\<rparr>) s1 else s1);
          s3 = upd_block cur (\<lambda>b. b\<lparr>bsize := sz\<rparr>) s2;
          s4 = upd_block cur (\<lambda>b. b\<lparr>bnext := 0\<rparr>) s3;
          s5 = upd_block cur (\<lambda>b. b\<lparr>bfree := False\<rparr>) s4
      in s5\<lparr>max_heap := max_heap s5 + ucast sz,
             num_grows := num_grows s5 + 1,
             num_blocks := num_blocks s5 + 1\<rparr>)"

text \<open>
  \<open>growHeap(last, size)\<close>: the two calls of \<open>sbrk\<close>, the assertion \<open>curr == prev\<close>,
  the test of \<open>curr\<close> against \<open>(struct _block *)-1\<close>, then the writes above.
\<close>

definition growHeap :: "state \<Rightarrow> addr \<Rightarrow> size_t \<Rightarrow> error + addr \<times> state" where
  "growHeap s lst sz =
     (let (cur, s1) = sbrk 0 s;
          (prev, s2) = sbrk (sizeof_block + sz) s1
      in if cur \<noteq> prev then Inl AssertionFailed
         else if cur = - 1 then Inr (0, s2)
         else Inr (cur, new_block cur lst sz s2))"

section \<open>malloc\<close>

text \<open>The lazy registration of the exit hook at the head of \<open>malloc\<close>.\<close>

definition register_exit_hook :: "state \<Rightarrow> state" where
  "register_exit_hook s =
     (if atexit_registered s = 0
      then s\<lparr>exit_hooks := Suc (exit_hooks s), atexit_registered := 1\<rparr>
      else s)"

text \<open>The body of \<open>if (next && next->size > size + sizeof(struct _block))\<close>.\<close>

definition split_block :: "addr \<Rightarrow> size_t \<Rightarrow> state \<Rightarrow> state" where
  "split_block nxt sz s =
     (let newBlock = nxt + sizeof_block + sz;
          s1 = upd_block newBlock (\<lambda>b. b\<lparr>bsize := bsize (blocks s nxt) - sz - sizeof_block\<rparr>) s;
          s2 = upd_block newBlock (\<lambda>b. b\<lparr>bfree := True\<rparr>) s1;
          s3 = upd_block newBlock (\<lambda>b. b\<lparr>bnext := bnext (blocks s2 nxt)\<rparr>) s2;
          s4 = upd_block nxt (\<lambda>b. b\<lparr>bsize := sz\<rparr>) s3;
          s5 = upd_block nxt (\<lambda>b. b\<lparr>bnext := newBlock\<rparr>) s4
      in s5\<lparr>num_splits := num_splits s5 + 1\<rparr>)"

text \<open>The last four lines of \<open>malloc\<close>.\<close>

definition hand_out :: "addr \<Rightarrow> size_t \<Rightarrow> state \<Rightarrow> addr \<times> state" where
  "hand_out nxt sz s =
     (let s1 = upd_block nxt (\<lambda>b. b\<lparr>bfree := False\<rparr>) s
      in (BLOCK_DATA nxt,
          s1\<lparr>num_requested := num_requested s1 + ucast sz,
             num_mallocs := num_mallocs s1 + 1\<rparr>))"

text \<open>
  \<open>malloc(size)\<close>. The result is \<open>None\<close> when the scan diverges, \<open>Some (Inl e)\<close>
  when the process aborts, and \<open>Some (Inr (p, s'))\<close> when the call returns \<open>p\<close> in
  state \<open>s'\<close>.
\<close>

definition malloc :: "strategy \<Rightarrow> state \<Rightarrow> size_t \<Rightarrow> (error + addr \<times> state) option" where
  "malloc strat s0 size0 =
     (let s = register_exit_hook s0;
          sz = ALIGN4 size0
      in if sz = 0 then Some (Inr (0, s))
         else
           (case findFreeBlock strat s (heapList s) sz of
              None \<Rightarrow> None
            | Some (nxt, lst, s1) \<Rightarrow>
                (let s2 = (if nxt \<noteq> 0 \<and> sz + sizeof_block < bsize (blocks s1 nxt)
                           then split_block nxt sz s1 else s1)
                 in if nxt = 0
                    then (case growHeap s2 lst sz of
                            Inl e \<Rightarrow> Some (Inl e)
                          | Inr (g, s3) \<Rightarrow>
                              if g = 0 then Some (Inr (0, s3))
                              else Some (Inr (hand_out g sz s3)))
                    else Some (Inr (hand_out nxt sz (s2\<lparr>num_reuses := num_reuses s2 + 1\<rparr>))))))"

section \<open>free\<close>

text \<open>
  The coalescing loop of \<open>free\<close>, from \<open>temp\<close>: when \<open>temp\<close> and its successor are
  free the successor is absorbed, and in both cases the loop goes on at \<open>temp->next\<close>.
\<close>

definition absorb_next :: "addr \<Rightarrow> state \<Rightarrow> state" where
  "absorb_next temp s =
     (let s1 = upd_block temp
                 (\<lambda>b. b\<lparr>bsize := bsize b + (bsize (blocks s (bnext (blocks s temp))) + sizeof_block)\<rparr>) s;
          s2 = upd_block temp (\<lambda>b. b\<lparr>bnext := bnext (blocks s1 (bnext (blocks s1 temp)))\<rparr>) s1
      in s2\<lparr>num_coalesces := num_coalesces s2 + 1\<rparr>)"

partial_function (option) coalesce :: "state \<Rightarrow> addr \<Rightarrow> state option" where
  "coalesce s temp =
     (if temp \<noteq> 0
      then (if bfree (blocks s temp) \<and> bnext (blocks s temp) \<noteq> 0
               \<and> bfree (blocks s (bnext (blocks s temp)))
            then coalesce (absorb_next temp s) (bnext (blocks (absorb_next temp s) temp))
            else coalesce s (bnext (blocks s temp)))
      else Some s)"

declare coalesce.simps [code]

definition free :: "state \<Rightarrow> addr \<Rightarrow> (error + state) option" where
  "free s ptr =
     (if ptr = 0 then Some (Inr s)
      else
        (let cur = BLOCK_HEADER ptr
         in if bfree (blocks s cur) then Some (Inl AssertionFailed)
            else
              (let s1 = upd_block cur (\<lambda>b. b\<lparr>bfree := True\<rparr>) s
               in case coalesce s1 (heapList s1) of
                    None \<Rightarrow> None
                  | Some s2 \<Rightarrow> Some (Inr (s2\<lparr>num_frees := num_frees s2 + 1\<rparr>)))))"

section \<open>calloc and realloc\<close>

text \<open>
  Modelled from the C standard: \<open>memset\<close> and \<open>memcpy\<close> of the C library, which
  are not part of the repository, as writes to the payload bytes. An address \<open>a\<close> lies
  among the \<open>n\<close> bytes from \<open>p\<close> when \<open>a - p < n\<close> in word arithmetic.
  \<open>memcpy\<close> reads the source bytes as they were before the call (regions that overlap
  are undefined in C). Both are total and leave the header store alone: the model has no
  unmapped memory, and it does not show what a write through a payload pointer does to a
  header lying in the region written. So they stand for the library functions only when
  the region lies inside the payload of one block of an address-ordered heap, which holds
  no header of the list and ends at or below the break.
\<close>

definition memset :: "addr \<Rightarrow> 8 word \<Rightarrow> size_t \<Rightarrow> state \<Rightarrow> state" where
  "memset p c n s = s\<lparr>bytes := (\<lambda>a. if a - p < n then c else bytes s a)\<rparr>"

definition memcpy :: "addr \<Rightarrow> addr \<Rightarrow> size_t \<Rightarrow> state \<Rightarrow> state" where
  "memcpy dst src n s =
     s\<lparr>bytes := (\<lambda>a. if a - dst < n then bytes s (src + (a - dst)) else bytes s a)\<rparr>"

definition calloc ::
  "strategy \<Rightarrow> state \<Rightarrow> size_t \<Rightarrow> size_t \<Rightarrow> (error + addr \<times> state) option" where
  "calloc strat s nmemb size0 =
     (let total_size = nmemb * size0
      in case malloc strat s total_size of
           None \<Rightarrow> None
         | Some (Inl e) \<Rightarrow> Some (Inl e)
         | Some (Inr (ptr, s1)) \<Rightarrow>
             Some (Inr (ptr, if ptr \<noteq> 0 then memset ptr 0 total_size s1 else s1)))"

definition realloc ::
  "strategy \<Rightarrow> state \<Rightarrow> addr \<Rightarrow> size_t \<Rightarrow> (error + addr \<times> state) option" where
  "realloc strat s ptr size0 =
     (if ptr = 0 then malloc strat s size0
      else if size0 = 0
      then (case free s ptr of
              None \<Rightarrow> None
            | Some (Inl e) \<Rightarrow> Some (Inl e)
            | Some (Inr s1) \<Rightarrow> Some (Inr (0, s1)))
      else
        (case malloc strat s size0 of
           None \<Rightarrow> None
         | Some (Inl e) \<Rightarrow> Some (Inl e)
         | Some (Inr (newPtr, s1)) \<Rightarrow>
             if newPtr \<noteq> 0
             then (let oldBlock = BLOCK_HEADER ptr;
                       n = (if bsize (blocks s1 oldBlock) < size0
                            then bsize (blocks s1 oldBlock) else size0);
                       s2 = memcpy newPtr ptr n s1
                   in case free s2 ptr of
                        None \<Rightarrow> None
                      | Some (Inl e) \<Rightarrow> Some (Inl e)
                      | Some (Inr s3) \<Rightarrow> Some (Inr (newPtr, s3)))
             else Some (Inr (newPtr, s1))))"

section \<open>The heap invariant\<close>

text \<open>
  \<open>blist h p as e\<close>: following \<open>next\<close> from \<open>p\<close> visits exactly the blocks \<open>as\<close>
  and then reaches the null pointer; every block ends (header plus payload, without
  wrap-around) where its successor starts, and the last block ends at \<open>e\<close>. So the list
  is ordered by strictly increasing addresses, without gaps.
\<close>

fun blist :: "(addr \<Rightarrow> block) \<Rightarrow> addr \<Rightarrow> addr list \<Rightarrow> nat \<Rightarrow> bool" where
  "blist h p [] e = (p = 0)"
| "blist h p (a # as) e =
     (p = a \<and> a \<noteq> 0
      \<and> unat a + unat sizeof_block + unat (bsize (h a))
          = (if bnext (h a) = 0 then e else unat (bnext (h a)))
      \<and> blist h (bnext (h a)) as e)"

text \<open>
  The address-ordered heap: the blocks reachable from \<open>heapList\<close> are \<open>as\<close>, laid out
  as above up to the program break; the next-fit cursor is null (the source never stores
  a block in it before it is non-null); the break is not null, within the bounds of the
  operating system, and in the lower half of the address space.
\<close>

definition heap_inv :: "state \<Rightarrow> addr list \<Rightarrow> bool" where
  "heap_inv s as =
     (blist (blocks s) (heapList s) as (unat (brk s))
      \<and> actualLast s = 0
      \<and> 0 < brk_min s \<and> brk_min s \<le> brk s \<and> brk s \<le> brk_max s
      \<and> unat (brk_max s) < 2 ^ 63)"


section \<open>Concrete runs\<close>

text \<open>An empty heap whose break is already at the limit of the operating system.\<close>

definition at_limit :: state where
  "at_limit = initial 4096 4096"

text \<open>
  The states of the run \<open>p1 = malloc(8); p2 = malloc(8); p3 = malloc(8); free(p1);
  free(p3); free(p2)\<close> from an empty heap with the break at 4096.
\<close>

definition three_s0 :: state where
  "three_s0 = initial 4096 65536"

definition three_s1 :: state where
  "three_s1 = three_s0\<lparr>blocks := (blocks three_s0)(4096 := \<lparr>bsize = 8, bnext = 0, bfree = False\<rparr>),
     heapList := 4096, atexit_registered := 1, exit_hooks := 1, num_mallocs := 1,
     num_grows := 1, num_blocks := 1, num_requested := 8, max_heap := 8, brk := 4128\<rparr>"

definition three_s2 :: state where
  "three_s2 = three_s1\<lparr>blocks := (blocks three_s1)
       (4096 := \<lparr>bsize = 8, bnext = 4128, bfree = False\<rparr>,
        4128 := \<lparr>bsize = 8, bnext = 0, bfree = False\<rparr>),
     num_mallocs := 2, num_grows := 2, num_blocks := 2, num_requested := 16,
     max_heap := 16, brk := 4160\<rparr>"

definition three_s3 :: state where
  "three_s3 = three_s2\<lparr>blocks := (blocks three_s2)
       (4128 := \<lparr>bsize = 8, bnext = 4160, bfree = False\<rparr>,
        4160 := \<lparr>bsize = 8, bnext = 0, bfree = False\<rparr>),
     num_mallocs := 3, num_grows := 3, num_blocks := 3, num_requested := 24,
     max_heap := 24, brk := 4192\<rparr>"

definition three_s4 :: state where
  "three_s4 = three_s3\<lparr>blocks := (blocks three_s3)(4096 := \<lparr>bsize = 8, bnext = 4128, bfree = True\<rparr>),
     num_frees := 1\<rparr>"

definition three_s5 :: state where
  "three_s5 = three_s4\<lparr>blocks := (blocks three_s4)(4160 := \<lparr>bsize = 8, bnext = 0, bfree = True\<rparr>),
     num_frees := 2\<rparr>"

definition three_s6 :: state where
  "three_s6 = three_s5\<lparr>blocks := (blocks three_s5)
       (4128 := \<lparr>bsize = 8, bnext = 4160, bfree = True\<rparr>,
        4096 := \<lparr>bsize = 40, bnext = 4160, bfree = True\<rparr>),
     num_coalesces := 1, num_frees := 3\<rparr>"

text \<open>The first state of that run with every payload byte set to 170.\<close>

definition dirty_s0 :: state where
  "dirty_s0 = three_s0\<lparr>bytes := (\<lambda>_. 170)\<rparr>"

text \<open>A heap of two blocks: a free block of 64 bytes at 4096 and an allocated block of 8 bytes
  at 4184.\<close>

definition split_heap :: state where
  "split_heap = three_s0\<lparr>blocks := (blocks three_s0)
       (4096 := \<lparr>bsize = 64, bnext = 4184, bfree = True\<rparr>,
        4184 := \<lparr>bsize = 8, bnext = 0, bfree = False\<rparr>),
     heapList := 4096, atexit_registered := 1, exit_hooks := 1, brk := 4216\<rparr>"

text \<open>The heap of three allocated blocks of the run above, where the payload byte at address
  \<open>a\<close> holds the low 8 bits of \<open>a\<close>, and the state after \<open>malloc(16)\<close> in it.\<close>

definition copy_s0 :: state where
  "copy_s0 = three_s3\<lparr>bytes := (\<lambda>a. ucast a)\<rparr>"

definition copy_s1 :: state where
  "copy_s1 = copy_s0\<lparr>blocks := (blocks copy_s0)
       (4160 := \<lparr>bsize = 8, bnext = 4192, bfree = False\<rparr>,
        4192 := \<lparr>bsize = 16, bnext = 0, bfree = False\<rparr>),
     num_mallocs := 4, num_grows := 4, num_blocks := 4, num_requested := 40,
     max_heap := 40, brk := 4232\<rparr>"

text \<open>
  The states of the run \<open>malloc(8); p = malloc(2^64 - 24); free(p); malloc(2^64 - 24)\<close>
  after its first call: 18446744073709551592 is \<open>2^64 - 24\<close>, and the counters
  4294967280 and 4294967256 are \<open>2^32 - 16\<close> and \<open>2^32 - 40\<close>.
\<close>

definition huge_s2 :: state where
  "huge_s2 = three_s1\<lparr>blocks := (blocks three_s1)
       (4096 := \<lparr>bsize = 8, bnext = 4128, bfree = False\<rparr>,
        4128 := \<lparr>bsize = 18446744073709551592, bnext = 0, bfree = False\<rparr>),
     num_mallocs := 2, num_grows := 2, num_blocks := 2, num_requested := 4294967280,
     max_heap := 4294967280\<rparr>"

definition huge_s3 :: state where
  "huge_s3 = huge_s2\<lparr>blocks := (blocks huge_s2)(4128 := \<lparr>bsize = 18446744073709551592, bnext = 0, bfree = True\<rparr>),
     num_frees := 1\<rparr>"

definition huge_s4 :: state where
  "huge_s4 = huge_s3\<lparr>blocks := (blocks huge_s3)(4128 := \<lparr>bsize = 18446744073709551592, bnext = 4128, bfree = False\<rparr>),
     num_mallocs := 3, num_reuses := 1, num_splits := 1, num_requested := 4294967256\<rparr>"

text \<open>
  The state after \<open>malloc(8); malloc(2^64 - 32)\<close>: 18446744073709551584 is
  \<open>2^64 - 32\<close>, the increment \<open>24 + (2^64 - 32)\<close> passed to \<open>sbrk\<close> is \<open>- 8\<close>
  as a signed word, so the break goes down from 4128 to 4120, and the counter 4294967272 is
  \<open>2^32 - 24\<close>.
\<close>

definition low_s2 :: state where
  "low_s2 = three_s1\<lparr>blocks := (blocks three_s1)
       (4096 := \<lparr>bsize = 8, bnext = 4128, bfree = False\<rparr>,
        4128 := \<lparr>bsize = 18446744073709551584, bnext = 0, bfree = False\<rparr>),
     num_mallocs := 2, num_grows := 2, num_blocks := 2, num_requested := 4294967272,
     max_heap := 4294967272, brk := 4120\<rparr>"

text \<open>
  The states of the run \<open>p1 = malloc(4294967300); p2 = malloc(4); p3 = malloc(8);
  free(p1); free(p3); malloc(4)\<close> under worst fit, from an empty heap with the break at
  4096 and room for 16 GiB: 4294967300 is \<open>2^32 + 4\<close>.
\<close>

definition worst_s0 :: state where
  "worst_s0 = initial 4096 17179869184"

definition worst_s1 :: state where
  "worst_s1 = worst_s0\<lparr>blocks := (blocks worst_s0)
       (4096 := \<lparr>bsize = 4294967300, bnext = 0, bfree = False\<rparr>),
     heapList := 4096, atexit_registered := 1, exit_hooks := 1, num_mallocs := 1,
     num_grows := 1, num_blocks := 1, num_requested := 4, max_heap := 4,
     brk := 4294971420\<rparr>"

definition worst_s2 :: state where
  "worst_s2 = worst_s1\<lparr>blocks := (blocks worst_s1)
       (4096 := \<lparr>bsize = 4294967300, bnext = 4294971420, bfree = False\<rparr>,
        4294971420 := \<lparr>bsize = 4, bnext = 0, bfree = False\<rparr>),
     num_mallocs := 2, num_grows := 2, num_blocks := 2, num_requested := 8,
     max_heap := 8, brk := 4294971448\<rparr>"

definition worst_s3 :: state where
  "worst_s3 = worst_s2\<lparr>blocks := (blocks worst_s2)
       (4294971420 := \<lparr>bsize = 4, bnext = 4294971448, bfree = False\<rparr>,
        4294971448 := \<lparr>bsize = 8, bnext = 0, bfree = False\<rparr>),
     num_mallocs := 3, num_grows := 3, num_blocks := 3, num_requested := 16,
     max_heap := 16, brk := 4294971480\<rparr>"

definition worst_s4 :: state where
  "worst_s4 = worst_s3\<lparr>blocks := (blocks worst_s3)
       (4096 := \<lparr>bsize = 4294967300, bnext = 4294971420, bfree = True\<rparr>),
     num_frees := 1\<rparr>"

definition worst_s5 :: state where
  "worst_s5 = worst_s4\<lparr>blocks := (blocks worst_s4)
       (4294971448 := \<lparr>bsize = 8, bnext = 0, bfree = True\<rparr>),
     num_frees := 2\<rparr>"

definition worst_s6 :: state where
  "worst_s6 = worst_s5\<lparr>blocks := (blocks worst_s5)
       (4294971448 := \<lparr>bsize = 8, bnext = 0, bfree = False\<rparr>),
     num_mallocs := 4, num_reuses := 1, num_requested := 20\<rparr>"

section \<open>Evaluation of the model on concrete states\<close>

text \<open>
  The equations that the simplifier unfolds to run the model on a concrete state, and the
  definitions of the states of each run.
\<close>

lemmas run_defs = malloc_def findFreeBlock_def growHeap_def new_block_def sbrk_def register_exit_hook_def
  split_block_def hand_out_def upd_block_def ALIGN4_def sizeof_block_def INT_MAX_def
  BLOCK_DATA_def BLOCK_HEADER_def free_def absorb_next_def initial_def Let_def
  first_fit_loop.simps best_fit_loop.simps worst_fit_loop.simps next_fit_loop.simps
  coalesce.simps

lemmas three_defs = three_s0_def three_s1_def three_s2_def three_s3_def three_s4_def three_s5_def three_s6_def

lemmas huge_defs = huge_s2_def huge_s3_def huge_s4_def

lemmas worst_defs = worst_s0_def worst_s1_def worst_s2_def worst_s3_def worst_s4_def worst_s5_def worst_s6_def

section \<open>Rounding\<close>

lemma ALIGN4_0: "ALIGN4 0 = 0"
  by (simp add: ALIGN4_def mask_eq_exp_minus_1 push_bit_eq_mult)

lemma ALIGN4_word: "ALIGN4 s = (s - 1) div 4 * 4 + 4"
  by (simp add: ALIGN4_def drop_bit_eq_div push_bit_eq_mult)

lemma ALIGN4_unat:
  "unat (ALIGN4 s) = (if s = 0 \<or> 2 ^ 64 - 4 < unat s then 0 else 4 * ((unat s + 3) div 4))"
proof (cases "s = 0")
  case True
  then show ?thesis by (simp add: ALIGN4_0)
next
  case False
  then have s1: "unat (s - 1) = unat s - 1" by (simp add: unat_minus_one)
  have pos: "0 < unat s" using False by (simp add: unat_gt_0)
  have lt: "unat s < 2 ^ 64" using unsigned_less [of s] by simp
  let ?q = "(unat s - 1) div 4"
  have q: "unat ((s - 1) div 4) = ?q" by (simp add: unat_div s1)
  have "?q * 4 < 2 ^ 64" using lt by simp
  then have q4: "unat ((s - 1) div 4 * 4) = ?q * 4"
    using q by (simp add: unat_mult_lem [THEN iffD1])
  have "unat ((s - 1) div 4 * 4 + 4) = (unat ((s - 1) div 4 * 4) + unat (4 :: 64 word)) mod 2 ^ 64"
    using unat_word_ariths(1) [of "(s - 1) div 4 * 4" 4] by simp
  then have tot: "unat (ALIGN4 s) = (?q * 4 + 4) mod 2 ^ 64"
    unfolding ALIGN4_word by (simp only: q4) simp
  show ?thesis
  proof (cases "2 ^ 64 - 4 < unat s")
    case True
    then have "?q * 4 + 4 = 2 ^ 64" using lt by simp
    with tot True show ?thesis by simp
  next
    case False
    then have "?q * 4 + 4 < 2 ^ 64" by simp
    moreover have "?q * 4 + 4 = 4 * ((unat s + 3) div 4)" using pos by presburger
    ultimately show ?thesis using tot False \<open>s \<noteq> 0\<close> by simp
  qed
qed

lemma ALIGN4_ge: "ALIGN4 s \<noteq> 0 \<Longrightarrow> s \<le> ALIGN4 s"
proof -
  assume nz: "ALIGN4 s \<noteq> 0"
  then have "unat (ALIGN4 s) \<noteq> 0" by (simp add: unat_eq_0)
  then have "unat (ALIGN4 s) = 4 * ((unat s + 3) div 4)"
    by (simp add: ALIGN4_unat split: if_splits)
  then have "unat s \<le> unat (ALIGN4 s)" by presburger
  then show ?thesis by (simp add: word_le_nat_alt)
qed

section \<open>Lemmas about the heap invariant\<close>

lemma unat_sizeof_block [simp]: "unat sizeof_block = 24"
  by (simp add: sizeof_block_def)

lemma blist_cong:
  "(\<And>a. a \<in> set as \<Longrightarrow> bsize (h' a) = bsize (h a) \<and> bnext (h' a) = bnext (h a))
   \<Longrightarrow> blist h' p as e = blist h p as e"
  by (induction as arbitrary: p) auto

lemma blist_null [simp]: "blist h 0 as e = (as = [])"
  by (cases as) auto

lemma blist_nonnull: "blist h p as e \<Longrightarrow> p \<noteq> 0 \<Longrightarrow> \<exists>bs. as = p # bs"
  by (cases as) auto

lemma blist_bounds:
  "blist h p as e \<Longrightarrow> a \<in> set as \<Longrightarrow>
     unat p \<le> unat a \<and> unat a + 24 + unat (bsize (h a)) \<le> e"
proof (induction as arbitrary: p a)
  case Nil
  then show ?case by simp
next
  case (Cons b bs)
  have pb: "p = b" and chain: "blist h (bnext (h b)) bs e"
    and ext: "unat b + 24 + unat (bsize (h b)) = (if bnext (h b) = 0 then e else unat (bnext (h b)))"
    using Cons.prems(1) by auto
  show ?case
  proof (cases "bnext (h b) = 0")
    case True
    with chain have "bs = []" by simp
    with Cons.prems(2) pb ext True show ?thesis by simp
  next
    case False
    with chain obtain cs where bs: "bs = bnext (h b) # cs"
      using blist_nonnull by blast
    then have nin: "bnext (h b) \<in> set bs" by simp
    from Cons.IH [OF chain nin] have le: "unat (bnext (h b)) \<le> e" by simp
    show ?thesis
    proof (cases "a = b")
      case True
      with pb ext False le show ?thesis by simp
    next
      case False
      with Cons.prems(2) have "a \<in> set bs" by simp
      from Cons.IH [OF chain this] ext \<open>bnext (h b) \<noteq> 0\<close> pb show ?thesis by simp
    qed
  qed
qed

lemma blist_tail_above:
  assumes "blist h p (a # as) e" and "b \<in> set as"
  shows "unat a + 24 + unat (bsize (h a)) \<le> unat b"
proof -
  from assms(1) have chain: "blist h (bnext (h a)) as e"
    and ext: "unat a + 24 + unat (bsize (h a)) = (if bnext (h a) = 0 then e else unat (bnext (h a)))"
    by auto
  from assms(2) chain have "bnext (h a) \<noteq> 0" by auto
  with ext blist_bounds [OF chain assms(2)] show ?thesis by simp
qed

lemma blist_head_notin_tail: "blist h p (a # as) e \<Longrightarrow> a \<notin> set as"
  using blist_tail_above by fastforce

subsection \<open>The scan\<close>

text \<open>
  On a block list each scan loop terminates; it returns null or a block of the list that
  is free and large enough, and when it has run to the end of the list it leaves the last
  block in \<open>*last\<close>.
\<close>

lemma first_fit_loop_blist:
  "blist h p as e \<Longrightarrow>
   \<exists>c l'. first_fit_loop h sz p l = Some (c, l')
     \<and> (c = 0 \<or> c \<in> set as \<and> bfree (h c) \<and> sz \<le> bsize (h c))
     \<and> (c = 0 \<longrightarrow> l' = (if as = [] then l else last as))"
proof (induction as arbitrary: p l)
  case Nil
  then show ?case by (subst first_fit_loop.simps) simp
next
  case (Cons a as)
  then have pa: "p = a" "a \<noteq> 0" and chain: "blist h (bnext (h a)) as e" by auto
  show ?case
  proof (cases "bfree (h a) \<and> sz \<le> bsize (h a)")
    case True
    with pa show ?thesis by (subst first_fit_loop.simps) simp
  next
    case False
    from Cons.IH [OF chain, of a] obtain c l' where
      r: "first_fit_loop h sz (bnext (h a)) a = Some (c, l')"
      and c: "c = 0 \<or> c \<in> set as \<and> bfree (h c) \<and> sz \<le> bsize (h c)"
      and l: "c = 0 \<longrightarrow> l' = (if as = [] then a else last as)" by blast
    have "first_fit_loop h sz p l = Some (c, l')"
      using False pa r by (subst first_fit_loop.simps) auto
    with c l show ?thesis by auto
  qed
qed

lemma best_fit_loop_blist:
  "blist h p as e \<Longrightarrow>
   \<exists>c. best_fit_loop h sz p l sm bf = Some (c, if as = [] then l else last as)
     \<and> (c = bf \<or> c \<in> set as \<and> bfree (h c) \<and> sz \<le> bsize (h c))"
proof (induction as arbitrary: p l sm bf)
  case Nil
  then show ?case by (subst best_fit_loop.simps) simp
next
  case (Cons a as)
  then have pa: "p = a" "a \<noteq> 0" and chain: "blist h (bnext (h a)) as e" by auto
  show ?case
  proof (cases "bfree (h a) \<and> sz \<le> bsize (h a) \<and> bsize (h a) < scast sm")
    case True
    from Cons.IH [OF chain, of a "ucast (bsize (h a))" a] obtain c where
      r: "best_fit_loop h sz (bnext (h a)) a (ucast (bsize (h a))) a
            = Some (c, if as = [] then a else last as)"
      and c: "c = a \<or> c \<in> set as \<and> bfree (h c) \<and> sz \<le> bsize (h c)" by blast
    have "best_fit_loop h sz p l sm bf = Some (c, if as = [] then a else last as)"
      using True pa r by (subst best_fit_loop.simps) auto
    with c True show ?thesis by auto
  next
    case False
    from Cons.IH [OF chain, of a sm bf] obtain c where
      r: "best_fit_loop h sz (bnext (h a)) a sm bf = Some (c, if as = [] then a else last as)"
      and c: "c = bf \<or> c \<in> set as \<and> bfree (h c) \<and> sz \<le> bsize (h c)" by blast
    have "best_fit_loop h sz p l sm bf = Some (c, if as = [] then a else last as)"
      using False pa r by (subst best_fit_loop.simps) auto
    with c show ?thesis by auto
  qed
qed

lemma worst_fit_loop_blist:
  "blist h p as e \<Longrightarrow>
   \<exists>c. worst_fit_loop h sz p l lg wb = Some (c, if as = [] then l else last as)
     \<and> (c = wb \<or> c \<in> set as \<and> bfree (h c) \<and> sz \<le> bsize (h c))"
proof (induction as arbitrary: p l lg wb)
  case Nil
  then show ?case by (subst worst_fit_loop.simps) simp
next
  case (Cons a as)
  then have pa: "p = a" "a \<noteq> 0" and chain: "blist h (bnext (h a)) as e" by auto
  show ?case
  proof (cases "bfree (h a) \<and> sz \<le> bsize (h a) \<and> scast lg < bsize (h a)")
    case True
    from Cons.IH [OF chain, of a "ucast (bsize (h a))" a] obtain c where
      r: "worst_fit_loop h sz (bnext (h a)) a (ucast (bsize (h a))) a
            = Some (c, if as = [] then a else last as)"
      and c: "c = a \<or> c \<in> set as \<and> bfree (h c) \<and> sz \<le> bsize (h c)" by blast
    have "worst_fit_loop h sz p l lg wb = Some (c, if as = [] then a else last as)"
      using True pa r by (subst worst_fit_loop.simps) auto
    with c True show ?thesis by auto
  next
    case False
    from Cons.IH [OF chain, of a lg wb] obtain c where
      r: "worst_fit_loop h sz (bnext (h a)) a lg wb = Some (c, if as = [] then a else last as)"
      and c: "c = wb \<or> c \<in> set as \<and> bfree (h c) \<and> sz \<le> bsize (h c)" by blast
    have "worst_fit_loop h sz p l lg wb = Some (c, if as = [] then a else last as)"
      using False pa r by (subst worst_fit_loop.simps) auto
    with c show ?thesis by auto
  qed
qed

lemma findFreeBlock_inv:
  assumes "heap_inv s as"
  shows "\<exists>c l'. findFreeBlock strat s (heapList s) sz = Some (c, l', s)
     \<and> (c = 0 \<or> c \<in> set as \<and> bfree (blocks s c) \<and> sz \<le> bsize (blocks s c))
     \<and> (c = 0 \<longrightarrow> l' = (if as = [] then 0 else last as))"
proof -
  from assms have bl: "blist (blocks s) (heapList s) as (unat (brk s))" and al: "actualLast s = 0"
    by (auto simp: heap_inv_def)
  have hl: "as = [] \<Longrightarrow> heapList s = 0" using bl by auto
  show ?thesis
  proof (cases strat)
    case FirstFit
    with first_fit_loop_blist [OF bl, of sz "heapList s"] hl show ?thesis
      by (auto simp: findFreeBlock_def)
  next
    case BestFit
    with best_fit_loop_blist [OF bl, of sz "heapList s" INT_MAX 0] hl show ?thesis
      by (auto simp: findFreeBlock_def)
  next
    case WorstFit
    with worst_fit_loop_blist [OF bl, of sz "heapList s" 0 0] hl show ?thesis
      by (auto simp: findFreeBlock_def)
  next
    case NextFit
    have n: "next_fit_loop (blocks s) sz 0 (heapList s) 0 = Some (0, heapList s, 0)"
      by (subst next_fit_loop.simps) simp
    have "s\<lparr>actualLast := 0\<rparr> = s" using al by simp
    with NextFit first_fit_loop_blist [OF bl, of sz "heapList s"] hl n al show ?thesis
      by (auto simp: findFreeBlock_def)
  qed
qed

text \<open>
  What the first-fit and the best-fit scan return when they return a block: first fit the
  first block of the list that is free and large enough, best fit one of least size among
  those. The \<open>int\<close> that best fit keeps is never negative and always holds the exact size
  of the block chosen so far, because only sizes below \<open>INT_MAX\<close> are stored in it.
\<close>

lemma first_fit_first:
  "blist h p as e \<Longrightarrow> first_fit_loop h sz p l = Some (c, l') \<Longrightarrow> c \<noteq> 0 \<Longrightarrow>
     \<exists>pre post. as = pre @ c # post
        \<and> (\<forall>a\<in>set pre. \<not> (bfree (h a) \<and> sz \<le> bsize (h a)))
        \<and> bfree (h c) \<and> sz \<le> bsize (h c)"
proof (induction as arbitrary: p l)
  case Nil
  then show ?case by (subst (asm) first_fit_loop.simps) simp
next
  case (Cons a as)
  then have pa: "p = a" "a \<noteq> 0" and chain: "blist h (bnext (h a)) as e" by auto
  show ?case
  proof (cases "bfree (h a) \<and> sz \<le> bsize (h a)")
    case True
    with pa Cons.prems(2) have "c = a"
      by (subst (asm) first_fit_loop.simps) simp
    with True show ?thesis by (intro exI [of _ "[]"] exI [of _ as]) simp
  next
    case False
    with pa Cons.prems(2) have "first_fit_loop h sz (bnext (h a)) a = Some (c, l')"
      by (subst (asm) first_fit_loop.simps) auto
    from Cons.IH [OF chain this Cons.prems(3)] obtain pre post where
      "as = pre @ c # post" "\<forall>a\<in>set pre. \<not> (bfree (h a) \<and> sz \<le> bsize (h a))"
      "bfree (h c) \<and> sz \<le> bsize (h c)" by blast
    with False show ?thesis by (intro exI [of _ "a # pre"] exI [of _ post]) simp
  qed
qed

lemma scast_nonneg:
  fixes sm :: "32 word"
  assumes "0 \<le> sint sm"
  shows "uint (scast sm :: 64 word) = sint sm"
proof -
  have "sint sm < 2 ^ 31" using sint_lt [of sm] by simp
  then have "sint sm < 2 ^ 64" by (rule less_trans) simp
  with assms have "sint sm mod 2 ^ 64 = sint sm" by simp
  then show ?thesis unfolding scast_eq uint_word_of_int by simp
qed

lemma ucast_small:
  fixes x :: "64 word" and sm :: "32 word"
  assumes "0 \<le> sint sm" "x < scast sm"
  shows "0 \<le> sint (ucast x :: 32 word)" and "(scast (ucast x :: 32 word) :: 64 word) = x"
proof -
  have "uint x < sint sm" using assms scast_nonneg [OF assms(1)] by (simp add: word_less_def)
  moreover have "sint sm < 2 ^ 31" using sint_lt [of sm] by simp
  ultimately have u: "uint x < 2 ^ 31" by linarith
  have "- (2 ^ 31) \<le> uint x" by (rule order_trans [of _ 0]) simp_all
  with u have "signed_take_bit 31 (uint x) = uint x" by (intro signed_take_bit_int_eq_self)
  then have s: "sint (ucast x :: 32 word) = uint x" by (simp add: signed_ucast_eq)
  then show "0 \<le> sint (ucast x :: 32 word)" by simp
  show "(scast (ucast x :: 32 word) :: 64 word) = x" unfolding scast_eq s by simp
qed

lemma best_fit_loop_smallest:
  "blist h p as e \<Longrightarrow> 0 \<le> sint sm \<Longrightarrow> best_fit_loop h sz p l sm bf = Some (c, l') \<Longrightarrow>
     (c = bf \<and> (\<forall>a\<in>set as. bfree (h a) \<and> sz \<le> bsize (h a) \<longrightarrow> scast sm \<le> bsize (h a)))
     \<or> (c \<in> set as \<and> bfree (h c) \<and> sz \<le> bsize (h c) \<and> bsize (h c) < scast sm
          \<and> (\<forall>a\<in>set as. bfree (h a) \<and> sz \<le> bsize (h a) \<longrightarrow> bsize (h c) \<le> bsize (h a)))"
proof (induction as arbitrary: p l sm bf)
  case Nil
  then show ?case by (subst (asm) best_fit_loop.simps) simp
next
  case (Cons a as)
  then have pa: "p = a" "a \<noteq> 0" and chain: "blist h (bnext (h a)) as e" by auto
  show ?case
  proof (cases "bfree (h a) \<and> sz \<le> bsize (h a) \<and> bsize (h a) < scast sm")
    case True
    then have lt: "bsize (h a) < scast sm" by simp
    have nn: "0 \<le> sint (ucast (bsize (h a)) :: 32 word)"
      and bk: "(scast (ucast (bsize (h a)) :: 32 word) :: 64 word) = bsize (h a)"
      using ucast_small [OF Cons.prems(2) lt] by simp_all
    from True pa Cons.prems(3)
    have r: "best_fit_loop h sz (bnext (h a)) a (ucast (bsize (h a))) a = Some (c, l')"
      by (subst (asm) best_fit_loop.simps) simp
    from Cons.IH [OF chain nn r] show ?thesis
      unfolding bk using True by auto
  next
    case False
    with pa Cons.prems(3)
    have r: "best_fit_loop h sz (bnext (h a)) a sm bf = Some (c, l')"
      by (subst (asm) best_fit_loop.simps) auto
    from Cons.IH [OF chain Cons.prems(2) r] show ?thesis
      using False by auto
  qed
qed

lemma best_fit_smallest:
  assumes "blist (blocks s) (heapList s) as e"
    and "findFreeBlock BestFit s l sz = Some (c, l', s')" and "c \<noteq> 0"
  shows "c \<in> set as \<and> bfree (blocks s c) \<and> sz \<le> bsize (blocks s c)
         \<and> (\<forall>a\<in>set as. bfree (blocks s a) \<and> sz \<le> bsize (blocks s a)
               \<longrightarrow> bsize (blocks s c) \<le> bsize (blocks s a))"
proof -
  have i: "0 \<le> sint INT_MAX" by (simp add: INT_MAX_def)
  from assms(2) have "best_fit_loop (blocks s) sz (heapList s) l INT_MAX 0 = Some (c, l')"
    by (auto simp: findFreeBlock_def split: option.splits)
  from best_fit_loop_smallest [OF assms(1) i this] assms(3) show ?thesis by auto
qed

lemma first_fit_earliest:
  assumes "blist (blocks s) (heapList s) as e"
    and "findFreeBlock FirstFit s l sz = Some (c, l', s')" and "c \<noteq> 0"
  shows "\<exists>pre post. as = pre @ c # post
        \<and> (\<forall>a\<in>set pre. \<not> (bfree (blocks s a) \<and> sz \<le> bsize (blocks s a)))
        \<and> bfree (blocks s c) \<and> sz \<le> bsize (blocks s c)"
proof -
  from assms(2) have "first_fit_loop (blocks s) sz (heapList s) l = Some (c, l')"
    by (auto simp: findFreeBlock_def split: option.splits)
  from first_fit_first [OF assms(1) this assms(3)] show ?thesis .
qed

subsection \<open>The scan on an arbitrary heap\<close>







subsection \<open>The break\<close>

lemma sbrk_zero: "brk_min s \<le> brk s \<Longrightarrow> brk s \<le> brk_max s \<Longrightarrow> sbrk 0 s = (brk s, s)"
  by (simp add: sbrk_def word_le_def)

lemma sint_small: "unat (w :: 64 word) < 2 ^ 63 \<Longrightarrow> sint w = int (unat w)"
proof -
  assume a: "unat w < 2 ^ 63"
  then have "int (unat w) < int (2 ^ 63)" by (simp only: of_nat_less_iff)
  then have u: "uint w < 2 ^ 63" by simp
  have "- (2 ^ 63) \<le> uint w" by (rule order_trans [of _ 0]) simp_all
  with u have "signed_take_bit 63 (uint w) = uint w"
    by (intro signed_take_bit_int_eq_self)
  then show ?thesis by (simp add: sint_uint)
qed

lemma sbrk_grow:
  assumes "unat incr < 2 ^ 63" "brk_min s \<le> brk s"
  shows "sbrk incr s = (if unat (brk s) + unat incr \<le> unat (brk_max s)
                        then (brk s, s\<lparr>brk := brk s + incr\<rparr>) else (- 1, s))"
proof -
  have si: "sint incr = int (unat incr)" using assms(1) by (rule sint_small)
  have "uint (brk_min s) \<le> uint (brk s)" using assms(2) by (simp add: word_le_def)
  then have lo: "uint (brk_min s) \<le> uint (brk s) + int (unat incr)" by linarith
  have hi: "(uint (brk s) + int (unat incr) \<le> uint (brk_max s))
              = (unat (brk s) + unat incr \<le> unat (brk_max s))"
    by (simp only: uint_nat) linarith
  have w: "word_of_int (uint (brk s) + int (unat incr)) = brk s + incr"
    by simp
  show ?thesis
    unfolding sbrk_def Let_def si using lo hi w by simp
qed

subsection \<open>Appending to a block list and splitting one of its blocks\<close>

lemma unat_block_end:
  fixes c sz :: "64 word"
  assumes "unat c + 24 + unat sz < 2 ^ 64"
  shows "unat (c + sizeof_block + sz) = unat c + 24 + unat sz"
proof -
  have a: "unat (c + sizeof_block) = unat c + 24"
    using assms by (simp add: unat_add_lem [THEN iffD1])
  have "unat (c + sizeof_block + sz) = unat (c + sizeof_block) + unat sz"
    using assms a by (simp add: unat_add_lem [THEN iffD1])
  with a show ?thesis by simp
qed

lemma unat_rest:
  fixes b sz :: "64 word"
  assumes "unat sz + 24 < unat b"
  shows "unat (b - sz - sizeof_block) = unat b - unat sz - 24"
proof -
  have "sz \<le> b" using assms by (simp add: word_le_nat_alt)
  then have a: "unat (b - sz) = unat b - unat sz" by (rule unat_sub)
  have "sizeof_block \<le> b - sz" using assms a by (simp add: word_le_nat_alt)
  then have "unat (b - sz - sizeof_block) = unat (b - sz) - unat sizeof_block" by (rule unat_sub)
  with a show ?thesis by simp
qed

lemma blist_append:
  assumes "blist h p as e" and "as \<noteq> []" and "c \<noteq> 0" and "unat c = e"
    and "unat c + 24 + unat (bsize (h' c)) = e'" and "bnext (h' c) = 0"
    and "bnext (h' (last as)) = c"
    and "\<And>a. a \<in> set as \<Longrightarrow> bsize (h' a) = bsize (h a)"
    and "\<And>a. a \<in> set as \<Longrightarrow> a \<noteq> last as \<Longrightarrow> bnext (h' a) = bnext (h a)"
  shows "blist h' p (as @ [c]) e'"
  using assms(1,2,7,8,9)
proof (induction as arbitrary: p)
  case Nil
  then show ?case by simp
next
  case (Cons a as)
  from Cons.prems(1) have pa: "p = a" "a \<noteq> 0" and chain: "blist h (bnext (h a)) as e"
    and ext: "unat a + 24 + unat (bsize (h a)) = (if bnext (h a) = 0 then e else unat (bnext (h a)))"
    by auto
  have sz: "bsize (h' a) = bsize (h a)" using Cons.prems(4) by simp
  show ?case
  proof (cases as)
    case Nil
    with chain have "bnext (h a) = 0" by simp
    with ext Nil Cons.prems(3) assms(3,4,5,6) sz pa show ?thesis by simp
  next
    case (Cons b bs)
    have "a \<notin> set as" using blist_head_notin_tail [OF Cons.prems(1)] .
    then have ne: "a \<noteq> last as" using Cons by auto
    then have nx: "bnext (h' a) = bnext (h a)" using Cons.prems(5) [of a] Cons by simp
    have "blist h' (bnext (h a)) (as @ [c]) e'"
    proof (rule Cons.IH [OF chain])
      show "as \<noteq> []" using Cons by simp
      show "bnext (h' (last as)) = c" using Cons.prems(3) Cons by simp
      show "\<And>x. x \<in> set as \<Longrightarrow> bsize (h' x) = bsize (h x)" using Cons.prems(4) by simp
      show "\<And>x. x \<in> set as \<Longrightarrow> x \<noteq> last as \<Longrightarrow> bnext (h' x) = bnext (h x)"
        using Cons.prems(5) Cons by simp
    qed
    moreover have "bnext (h a) \<noteq> 0" using chain Cons by auto
    ultimately show ?thesis using pa ext sz nx by simp
  qed
qed

lemma blist_split:
  assumes "blist h p as e" and "c \<in> set as" and "e < 2 ^ 64"
    and "unat sz + 24 < unat (bsize (h c))"
    and "nb = c + sizeof_block + sz"
    and "bsize (h' c) = sz" and "bnext (h' c) = nb"
    and "bsize (h' nb) = bsize (h c) - sz - sizeof_block" and "bnext (h' nb) = bnext (h c)"
    and "\<And>a. a \<in> set as \<Longrightarrow> a \<noteq> c \<Longrightarrow> bsize (h' a) = bsize (h a) \<and> bnext (h' a) = bnext (h a)"
  shows "\<exists>as'. blist h' p as' e \<and> set as' = insert nb (set as)"
  using assms(1,2,10)
proof (induction as arbitrary: p)
  case Nil
  then show ?case by simp
next
  case (Cons a as)
  from Cons.prems(1) have pa: "p = a" "a \<noteq> 0" and chain: "blist h (bnext (h a)) as e"
    and ext: "unat a + 24 + unat (bsize (h a)) = (if bnext (h a) = 0 then e else unat (bnext (h a)))"
    by auto
  show ?case
  proof (cases "a = c")
    case True
    have le: "unat c + 24 + unat (bsize (h c)) \<le> e"
      using blist_bounds [OF assms(1,2)] by simp
    then have small: "unat c + 24 + unat sz < 2 ^ 64" using assms(3,4) by linarith
    have nbu: "unat nb = unat c + 24 + unat sz"
      unfolding assms(5) using small by (rule unat_block_end)
    have nb0: "nb \<noteq> 0" using nbu by (auto simp: unat_eq_zero [symmetric] simp del: unat_eq_zero)
    have rest: "unat (bsize (h' nb)) = unat (bsize (h c)) - unat sz - 24"
      unfolding assms(8) using assms(4) by (rule unat_rest)
    have nin: "nb \<notin> set as" "c \<notin> set as"
      using blist_tail_above [OF Cons.prems(1)] True nbu assms(4) by fastforce+
    have "blist h' (bnext (h c)) as e = blist h (bnext (h c)) as e"
      by (rule blist_cong) (use Cons.prems(3) nin in auto)
    with chain True have tl: "blist h' (bnext (h c)) as e" by simp
    from ext True have extc: "unat c + 24 + unat (bsize (h c))
        = (if bnext (h c) = 0 then e else unat (bnext (h c)))" by simp
    have "blist h' p (c # nb # as) e"
      using pa True nbu nb0 rest extc assms(4,6,7,9) tl by auto
    then show ?thesis using True by (intro exI [of _ "c # nb # as"]) auto
  next
    case False
    with Cons.prems(2) have cin: "c \<in> set as" by simp
    have "\<exists>as'. blist h' (bnext (h a)) as' e \<and> set as' = insert nb (set as)"
      by (rule Cons.IH [OF chain cin]) (use Cons.prems(3) in auto)
    then obtain as' where as': "blist h' (bnext (h a)) as' e" "set as' = insert nb (set as)"
      by blast
    have "bsize (h' a) = bsize (h a) \<and> bnext (h' a) = bnext (h a)"
      using Cons.prems(3) [of a] False by simp
    with as' pa ext have "blist h' p (a # as') e" by simp
    with as' show ?thesis by (intro exI [of _ "a # as'"]) auto
  qed
qed

subsection \<open>The steps of malloc on an address-ordered heap\<close>

lemma heap_inv_register [simp]: "heap_inv (register_exit_hook s) as = heap_inv s as"
  by (simp add: heap_inv_def register_exit_hook_def)

lemma heap_inv_brk_bound: "heap_inv s as \<Longrightarrow> unat (brk s) < 2 ^ 63"
  unfolding heap_inv_def word_le_nat_alt by linarith

lemma heap_inv_block_bound:
  assumes "heap_inv s as" "c \<in> set as"
  shows "unat c + 24 + unat (bsize (blocks s c)) < 2 ^ 63"
proof -
  have "unat c + 24 + unat (bsize (blocks s c)) \<le> unat (brk s)"
    using assms blist_bounds [of "blocks s" "heapList s" as "unat (brk s)" c]
    by (simp add: heap_inv_def)
  with heap_inv_brk_bound [OF assms(1)] show ?thesis by linarith
qed

lemma split_test:
  assumes "heap_inv s as" "c \<in> set as" "sz \<le> bsize (blocks s c)"
  shows "(sz + sizeof_block < bsize (blocks s c)) = (unat sz + 24 < unat (bsize (blocks s c)))"
proof -
  have "unat sz \<le> unat (bsize (blocks s c))" using assms(3) by (simp add: word_le_nat_alt)
  with heap_inv_block_bound [OF assms(1,2)] have "unat sz + unat sizeof_block < 2 ^ 64" by simp
  then have "unat (sz + sizeof_block) = unat sz + 24"
    by (simp add: unat_add_lem [THEN iffD1])
  then show ?thesis by (simp add: word_less_nat_alt)
qed

lemma split_block_fields:
  assumes "c + sizeof_block + sz \<noteq> c"
  shows "bsize (blocks (split_block c sz s) c) = sz"
    and "bnext (blocks (split_block c sz s) c) = c + sizeof_block + sz"
    and "bfree (blocks (split_block c sz s) c) = bfree (blocks s c)"
    and "bsize (blocks (split_block c sz s) (c + sizeof_block + sz))
           = bsize (blocks s c) - sz - sizeof_block"
    and "bnext (blocks (split_block c sz s) (c + sizeof_block + sz)) = bnext (blocks s c)"
    and "bfree (blocks (split_block c sz s) (c + sizeof_block + sz))"
    and "\<And>a. a \<noteq> c \<Longrightarrow> a \<noteq> c + sizeof_block + sz
           \<Longrightarrow> blocks (split_block c sz s) a = blocks s a"
  using assms by (simp_all add: split_block_def upd_block_def Let_def)

lemma split_block_other [simp]:
  "heapList (split_block c sz s) = heapList s"
  "actualLast (split_block c sz s) = actualLast s"
  "brk (split_block c sz s) = brk s"
  "brk_min (split_block c sz s) = brk_min s"
  "brk_max (split_block c sz s) = brk_max s"
  "bytes (split_block c sz s) = bytes s"
  "num_mallocs (split_block c sz s) = num_mallocs s"
  "num_requested (split_block c sz s) = num_requested s"
  "num_splits (split_block c sz s) = num_splits s + 1"
  by (simp_all add: split_block_def upd_block_def Let_def)

lemma blist_separated:
  "blist h p as e \<Longrightarrow> c \<in> set as \<Longrightarrow> x \<in> set as \<Longrightarrow>
     x = c \<or> unat x + 24 + unat (bsize (h x)) \<le> unat c
           \<or> unat c + 24 + unat (bsize (h c)) \<le> unat x"
proof (induction as arbitrary: p)
  case Nil
  then show ?case by simp
next
  case (Cons a as)
  from Cons.prems(1) have chain: "blist h (bnext (h a)) as e" by simp
  consider "x = a" "c = a" | "x = a" "c \<in> set as" | "c = a" "x \<in> set as"
    | "c \<in> set as" "x \<in> set as"
    using Cons.prems(2,3) by auto
  then show ?case
  proof cases
    case 1
    then show ?thesis by simp
  next
    case 2
    then show ?thesis using blist_tail_above [OF Cons.prems(1)] by blast
  next
    case 3
    then show ?thesis using blist_tail_above [OF Cons.prems(1)] by blast
  next
    case 4
    then show ?thesis using Cons.IH [OF chain] by blast
  qed
qed

lemma split_block_inv:
  assumes "heap_inv s as" "c \<in> set as" "sz \<le> bsize (blocks s c)"
    and "sz + sizeof_block < bsize (blocks s c)"
  shows "\<exists>as'. heap_inv (split_block c sz s) as' \<and> set as' = insert (c + sizeof_block + sz) (set as)"
proof -
  let ?nb = "c + sizeof_block + sz"
  have lt: "unat sz + 24 < unat (bsize (blocks s c))"
    using assms split_test by blast
  have "unat c + 24 + unat sz < 2 ^ 64"
    using heap_inv_block_bound [OF assms(1,2)] lt by simp
  then have nbu: "unat ?nb = unat c + 24 + unat sz" by (rule unat_block_end)
  have ne: "?nb \<noteq> c"
  proof
    assume h: "?nb = c"
    have "unat ?nb = unat c" by (simp only: h)
    with nbu show False by linarith
  qed
  have bl: "blist (blocks s) (heapList s) as (unat (brk s))"
    using assms(1) by (simp add: heap_inv_def)
  have e: "unat (brk s) < 2 ^ 64"
    using heap_inv_brk_bound [OF assms(1)] by simp
  have nin: "?nb \<notin> set as"
  proof
    assume "?nb \<in> set as"
    from blist_separated [OF bl assms(2) this] ne nbu lt show False by linarith
  qed
  have "\<exists>as'. blist (blocks (split_block c sz s)) (heapList s) as' (unat (brk s))
          \<and> set as' = insert ?nb (set as)"
  proof (rule blist_split [OF bl assms(2) e lt refl])
    show "\<And>a. a \<in> set as \<Longrightarrow> a \<noteq> c \<Longrightarrow>
          bsize (blocks (split_block c sz s) a) = bsize (blocks s a) \<and>
          bnext (blocks (split_block c sz s) a) = bnext (blocks s a)"
      using nin split_block_fields(7) [OF ne] by metis
  qed (simp_all add: split_block_fields [OF ne])
  then show ?thesis using assms(1) by (auto simp: heap_inv_def)
qed

lemma hand_out_fields [simp]:
  "fst (hand_out c sz s) = BLOCK_DATA c"
  "heapList (snd (hand_out c sz s)) = heapList s"
  "actualLast (snd (hand_out c sz s)) = actualLast s"
  "brk (snd (hand_out c sz s)) = brk s"
  "brk_min (snd (hand_out c sz s)) = brk_min s"
  "brk_max (snd (hand_out c sz s)) = brk_max s"
  "bytes (snd (hand_out c sz s)) = bytes s"
  "num_requested (snd (hand_out c sz s)) = num_requested s + ucast sz"
  "num_mallocs (snd (hand_out c sz s)) = num_mallocs s + 1"
  "num_splits (snd (hand_out c sz s)) = num_splits s"
  "bsize (blocks (snd (hand_out c sz s)) a) = bsize (blocks s a)"
  "bnext (blocks (snd (hand_out c sz s)) a) = bnext (blocks s a)"
  "bfree (blocks (snd (hand_out c sz s)) a) = (a \<noteq> c \<and> bfree (blocks s a))"
  by (simp_all add: hand_out_def upd_block_def Let_def)

lemma hand_out_blist [simp]:
  "blist (blocks (snd (hand_out c sz s))) p as e = blist (blocks s) p as e"
  by (rule blist_cong) simp


lemma hand_out_inv [simp]: "heap_inv (snd (hand_out c sz s)) as = heap_inv s as"
  by (simp add: heap_inv_def)

lemma sbrk_cases:
  "sbrk incr s = (- 1, s) \<or> (\<exists>b'. sbrk incr s = (brk s, s\<lparr>brk := b'\<rparr>))"
  by (auto simp: sbrk_def Let_def)

lemma growHeap_cases:
  assumes "brk_min s \<le> brk s" "brk s \<le> brk_max s" "brk s \<noteq> - 1"
  shows "growHeap s lst sz = Inl AssertionFailed
         \<or> (\<exists>b'. growHeap s lst sz = Inr (brk s, new_block (brk s) lst sz (s\<lparr>brk := b'\<rparr>))
               \<and> (unat (sizeof_block + sz) < 2 ^ 63 \<longrightarrow>
                    b' = brk s + (sizeof_block + sz)
                    \<and> unat (brk s) + unat (sizeof_block + sz) \<le> unat (brk_max s)))"
proof (cases "unat (sizeof_block + sz) < 2 ^ 63")
  case True
  show ?thesis
    using assms True
    by (simp add: growHeap_def sbrk_zero sbrk_grow [OF True assms(1)])
next
  case False
  show ?thesis
    using assms False sbrk_cases [of "sizeof_block + sz" s]
    by (auto simp add: growHeap_def sbrk_zero)
qed

lemma new_block_fields [simp]:
  "heapList (new_block c l sz s) = (if heapList s = 0 then c else heapList s)"
  "actualLast (new_block c l sz s) = actualLast s"
  "brk (new_block c l sz s) = brk s"
  "brk_min (new_block c l sz s) = brk_min s"
  "brk_max (new_block c l sz s) = brk_max s"
  "bytes (new_block c l sz s) = bytes s"
  "num_requested (new_block c l sz s) = num_requested s"
  "num_mallocs (new_block c l sz s) = num_mallocs s"
  "num_splits (new_block c l sz s) = num_splits s"
  "blocks (new_block c l sz s) c = \<lparr>bsize = sz, bnext = 0, bfree = False\<rparr>"
  "a \<noteq> c \<Longrightarrow> bsize (blocks (new_block c l sz s) a) = bsize (blocks s a)"
  "a \<noteq> c \<Longrightarrow> bfree (blocks (new_block c l sz s) a) = bfree (blocks s a)"
  "a \<noteq> c \<Longrightarrow> a \<noteq> l \<Longrightarrow> bnext (blocks (new_block c l sz s) a) = bnext (blocks s a)"
  "l \<noteq> c \<Longrightarrow> l \<noteq> 0 \<Longrightarrow> bnext (blocks (new_block c l sz s) l) = c"
  by (simp_all add: new_block_def upd_block_def Let_def)

lemma blist_nonzero: "blist h p as e \<Longrightarrow> a \<in> set as \<Longrightarrow> a \<noteq> 0"
  by (induction as arbitrary: p) auto

lemma new_block_blist:
  assumes "blist (blocks s) (heapList s) as (unat c)" and "c \<noteq> 0"
  shows "blist (blocks (new_block c (if as = [] then 0 else last as) sz s))
           (heapList (new_block c (if as = [] then 0 else last as) sz s))
           (as @ [c]) (unat c + 24 + unat sz)"
proof (cases "as = []")
  case True
  with assms show ?thesis by simp
next
  case False
  have nin: "\<And>a. a \<in> set as \<Longrightarrow> a \<noteq> c"
    using blist_bounds [OF assms(1)] by fastforce
  have hl: "heapList s \<noteq> 0" using assms(1) False by (cases as) auto
  have l0: "last as \<noteq> 0" using blist_nonzero [OF assms(1), of "last as"] False by simp
  show ?thesis
    using False hl
    apply simp
    apply (rule blist_append [OF assms(1) False assms(2) refl])
    using nin l0 False by (simp_all add: nin)
qed

lemma register_fields [simp]:
  "heapList (register_exit_hook s) = heapList s"
  "blocks (register_exit_hook s) = blocks s"
  "bytes (register_exit_hook s) = bytes s"
  "actualLast (register_exit_hook s) = actualLast s"
  "brk (register_exit_hook s) = brk s"
  "brk_min (register_exit_hook s) = brk_min s"
  "brk_max (register_exit_hook s) = brk_max s"
  "num_mallocs (register_exit_hook s) = num_mallocs s"
  "num_frees (register_exit_hook s) = num_frees s"
  "num_reuses (register_exit_hook s) = num_reuses s"
  "num_grows (register_exit_hook s) = num_grows s"
  "num_splits (register_exit_hook s) = num_splits s"
  "num_coalesces (register_exit_hook s) = num_coalesces s"
  "num_blocks (register_exit_hook s) = num_blocks s"
  "num_requested (register_exit_hook s) = num_requested s"
  "max_heap (register_exit_hook s) = max_heap s"
  by (simp_all add: register_exit_hook_def)

lemma malloc_zero: "ALIGN4 size0 = 0 \<Longrightarrow> malloc strat s size0 = Some (Inr (0, register_exit_hook s))"
  by (simp add: malloc_def)

lemma malloc_scan:
  assumes "heap_inv s as"
  obtains c l where
    "findFreeBlock strat (register_exit_hook s) (heapList s) sz = Some (c, l, register_exit_hook s)"
    "c = 0 \<or> c \<in> set as \<and> bfree (blocks s c) \<and> sz \<le> bsize (blocks s c)"
    "c = 0 \<longrightarrow> l = (if as = [] then 0 else last as)"
proof -
  have "heap_inv (register_exit_hook s) as" using assms by simp
  from findFreeBlock_inv [OF this, of strat sz] show ?thesis using that by auto
qed

lemma malloc_found:
  assumes "ALIGN4 size0 \<noteq> 0"
    and "findFreeBlock strat (register_exit_hook s) (heapList s) (ALIGN4 size0) = Some (c, l, s1)"
    and "c \<noteq> 0"
  shows "malloc strat s size0 =
     Some (Inr (hand_out c (ALIGN4 size0)
       ((if ALIGN4 size0 + sizeof_block < bsize (blocks s1 c)
         then split_block c (ALIGN4 size0) s1 else s1)
        \<lparr>num_reuses := num_reuses (if ALIGN4 size0 + sizeof_block < bsize (blocks s1 c)
         then split_block c (ALIGN4 size0) s1 else s1) + 1\<rparr>)))"
  using assms by (simp add: malloc_def Let_def)

lemma malloc_notfound:
  assumes "ALIGN4 size0 \<noteq> 0"
    and "findFreeBlock strat (register_exit_hook s) (heapList s) (ALIGN4 size0) = Some (0, l, s1)"
  shows "malloc strat s size0 =
     (case growHeap s1 l (ALIGN4 size0) of
        Inl e \<Rightarrow> Some (Inl e)
      | Inr (g, s3) \<Rightarrow> if g = 0 then Some (Inr (0, s3)) else Some (Inr (hand_out g (ALIGN4 size0) s3)))"
  using assms by (simp add: malloc_def Let_def)

lemma heap_inv_reuses [simp]: "heap_inv (s\<lparr>num_reuses := n\<rparr>) as = heap_inv s as"
  by (simp add: heap_inv_def)

lemma heap_inv_block_data:
  assumes "heap_inv s as" "c \<in> set as"
  shows "BLOCK_DATA c \<noteq> 0"
proof
  assume z: "BLOCK_DATA c = 0"
  have "unat c + unat sizeof_block < 2 ^ 64" using heap_inv_block_bound [OF assms] by simp
  then have "unat (c + sizeof_block) = unat c + 24" by (simp add: unat_add_lem [THEN iffD1])
  moreover have "unat (c + sizeof_block) = 0" using z by (simp add: BLOCK_DATA_def)
  ultimately show False by simp
qed

lemma heap_inv_brk_data:
  assumes "heap_inv s as"
  shows "BLOCK_DATA (brk s) \<noteq> 0" and "brk s \<noteq> 0" and "brk s \<noteq> - 1"
proof -
  have b: "unat (brk s) < 2 ^ 63" using heap_inv_brk_bound [OF assms] .
  show "BLOCK_DATA (brk s) \<noteq> 0"
  proof
    assume z: "BLOCK_DATA (brk s) = 0"
    have "unat (brk s) + unat sizeof_block < 2 ^ 64" using b by simp
    then have "unat (brk s + sizeof_block) = unat (brk s) + 24" by (simp add: unat_add_lem [THEN iffD1])
    moreover have "unat (brk s + sizeof_block) = 0" using z by (simp add: BLOCK_DATA_def)
    ultimately show False by simp
  qed
  have "0 < brk s" using assms unfolding heap_inv_def by (meson less_le_trans)
  then show "brk s \<noteq> 0" by auto
  show "brk s \<noteq> - 1"
  proof
    assume "brk s = - 1"
    then have "unat (brk s) = unat (- 1 :: 64 word)" by simp
    with b show False by (simp add: unsigned_minus_1_eq_mask mask_eq_exp_minus_1)
  qed
qed

text \<open>
  A request for growth that the operating system denies ends in the assertion of
  \<open>growHeap\<close>, whatever the strategy and the heap: the branch that returns null is not
  reached.
\<close>

lemma denied_growth_aborts:
  assumes "heap_inv s as" and "ALIGN4 size0 \<noteq> 0"
    and "findFreeBlock strat (register_exit_hook s) (heapList s) (ALIGN4 size0) = Some (0, l, s1)"
    and "fst (sbrk (sizeof_block + ALIGN4 size0) (register_exit_hook s)) = - 1"
  shows "malloc strat s size0 = Some (Inl AssertionFailed)"
proof -
  let ?s1 = "register_exit_hook s"
  from malloc_scan [OF assms(1), of strat "ALIGN4 size0"] assms(3)
  have s1: "s1 = ?s1" by auto
  have b: "brk_min ?s1 \<le> brk ?s1" "brk ?s1 \<le> brk_max ?s1"
    using assms(1) by (simp_all add: heap_inv_def)
  have ne: "brk ?s1 \<noteq> - 1" using heap_inv_brk_data(3) [OF assms(1)] by simp
  have "growHeap ?s1 l (ALIGN4 size0) = Inl AssertionFailed"
    using assms(4) ne by (simp add: growHeap_def sbrk_zero [OF b] split_beta)
  then show ?thesis using malloc_notfound [OF assms(2) assms(3)] s1 by simp
qed

lemma denied_growth_aborts_calloc:
  assumes "heap_inv s as" and "ALIGN4 (nmemb * size0) \<noteq> 0"
    and "findFreeBlock strat (register_exit_hook s) (heapList s) (ALIGN4 (nmemb * size0))
           = Some (0, l, s1)"
    and "fst (sbrk (sizeof_block + ALIGN4 (nmemb * size0)) (register_exit_hook s)) = - 1"
  shows "calloc strat s nmemb size0 = Some (Inl AssertionFailed)"
  using denied_growth_aborts [OF assms] by (simp add: calloc_def)

text \<open>
  On an address-ordered heap \<open>malloc\<close> returns null only for a size that rounds to zero:
  the other calls return a pointer that is not null or end in the assertion.
\<close>

lemma malloc_null_only_for_zero:
  assumes "heap_inv s as" and "malloc strat s size0 = Some (Inr (0, s'))"
  shows "ALIGN4 size0 = 0"
proof (rule ccontr)
  assume nz: "ALIGN4 size0 \<noteq> 0"
  let ?s1 = "register_exit_hook s"
  from malloc_scan [OF assms(1), of strat "ALIGN4 size0"] obtain c l where
    ff: "findFreeBlock strat ?s1 (heapList s) (ALIGN4 size0) = Some (c, l, ?s1)"
    and c: "c = 0 \<or> c \<in> set as \<and> bfree (blocks s c) \<and> ALIGN4 size0 \<le> bsize (blocks s c)"
    by blast
  show False
  proof (cases "c = 0")
    case cz: True
    have inv1: "heap_inv ?s1 as" using assms(1) by simp
    have b: "brk_min ?s1 \<le> brk ?s1" "brk ?s1 \<le> brk_max ?s1"
      using assms(1) by (simp_all add: heap_inv_def)
    have m: "malloc strat s size0 =
      (case growHeap ?s1 l (ALIGN4 size0) of
        Inl e \<Rightarrow> Some (Inl e)
      | Inr (g, s3) \<Rightarrow> if g = 0 then Some (Inr (0, s3))
                       else Some (Inr (hand_out g (ALIGN4 size0) s3)))"
      using malloc_notfound [OF nz] ff cz by simp
    from growHeap_cases [OF b heap_inv_brk_data(3) [OF inv1], of l "ALIGN4 size0"]
    show False
    proof
      assume "growHeap ?s1 l (ALIGN4 size0) = Inl AssertionFailed"
      with m assms(2) show False by simp
    next
      assume "\<exists>b'. growHeap ?s1 l (ALIGN4 size0) =
            Inr (brk ?s1, new_block (brk ?s1) l (ALIGN4 size0) (?s1\<lparr>brk := b'\<rparr>)) \<and>
            (unat (sizeof_block + ALIGN4 size0) < 2 ^ 63 \<longrightarrow>
             b' = brk ?s1 + (sizeof_block + ALIGN4 size0) \<and>
             unat (brk ?s1) + unat (sizeof_block + ALIGN4 size0) \<le> unat (brk_max ?s1))"
      then obtain b' where g: "growHeap ?s1 l (ALIGN4 size0) =
            Inr (brk s, new_block (brk s) l (ALIGN4 size0) (?s1\<lparr>brk := b'\<rparr>))"
        by auto
      have "malloc strat s size0 = Some (Inr (hand_out (brk s) (ALIGN4 size0)
               (new_block (brk s) l (ALIGN4 size0) (?s1\<lparr>brk := b'\<rparr>))))"
        using m g heap_inv_brk_data(2) [OF assms(1)] by simp
      with assms(2) have "BLOCK_DATA (brk s) = 0" by (auto simp: prod_eq_iff)
      with heap_inv_brk_data(1) [OF assms(1)] show False by simp
    qed
  next
    case cnz: False
    with c have cin: "c \<in> set as" by simp
    from malloc_found [OF nz ff cnz] assms(2) have "BLOCK_DATA c = 0" by (auto simp: prod_eq_iff)
    with heap_inv_block_data [OF assms(1) cin] show False by simp
  qed
qed

subsection \<open>The coalescing pass\<close>

text \<open>
  On a block list the pass terminates; it changes nothing but the sizes and successors of
  blocks of the list and \<open>num_coalesces\<close>, and when the list ends inside the address
  space it leaves a block list over a part of the same blocks.
\<close>

lemma absorb_next_eq:
  assumes "bnext (blocks s t) \<noteq> t"
  shows "absorb_next t s =
    s\<lparr>blocks := (blocks s)(t := (blocks s t)
          \<lparr>bsize := bsize (blocks s t) + (bsize (blocks s (bnext (blocks s t))) + sizeof_block),
           bnext := bnext (blocks s (bnext (blocks s t)))\<rparr>),
      num_coalesces := num_coalesces s + 1\<rparr>"
  using assms by (simp add: absorb_next_def upd_block_def Let_def)

lemma coalesce_blist:
  "blist (blocks s) p as e \<Longrightarrow>
   \<exists>h' n. coalesce s p = Some (s\<lparr>blocks := h', num_coalesces := n\<rparr>)
     \<and> (\<forall>x. bfree (h' x) = bfree (blocks s x))
     \<and> (\<forall>x. x \<notin> set as \<longrightarrow> h' x = blocks s x)
     \<and> (\<forall>x. \<not> bfree (blocks s x) \<longrightarrow> h' x = blocks s x)
     \<and> (e < 2 ^ 64 \<longrightarrow> (\<exists>as'. blist h' p as' e \<and> set as' \<subseteq> set as))"
proof (induction "length as" arbitrary: s p as rule: less_induct)
  case less
  show ?case
  proof (cases as)
    case Nil
    with less.prems have "p = 0" by simp
    then have "coalesce s p = Some (s\<lparr>blocks := blocks s, num_coalesces := num_coalesces s\<rparr>)"
      by (subst coalesce.simps) simp
    with Nil less.prems show ?thesis by blast
  next
    case (Cons a bs)
    let ?h = "blocks s"
    from less.prems Cons have pa: "p = a" "a \<noteq> 0" and chain: "blist ?h (bnext (?h a)) bs e"
      and ext: "unat a + 24 + unat (bsize (?h a)) = (if bnext (?h a) = 0 then e else unat (bnext (?h a)))"
      by auto
    have anin: "a \<notin> set bs" using blist_head_notin_tail less.prems Cons by blast
    show ?thesis
    proof (cases "bfree (?h a) \<and> bnext (?h a) \<noteq> 0 \<and> bfree (?h (bnext (?h a)))")
      case False
      have step: "coalesce s p = coalesce s (bnext (?h a))"
        using False pa by (subst coalesce.simps) auto
      have "length bs < length as" using Cons by simp
      from less.hyps [OF this chain] obtain h' n where
        r: "coalesce s (bnext (?h a)) = Some (s\<lparr>blocks := h', num_coalesces := n\<rparr>)"
        and fr: "\<forall>x. bfree (h' x) = bfree (?h x)"
        and out: "\<forall>x. x \<notin> set bs \<longrightarrow> h' x = ?h x"
        and nf: "\<forall>x. \<not> bfree (?h x) \<longrightarrow> h' x = ?h x"
        and bl: "e < 2 ^ 64 \<longrightarrow> (\<exists>as'. blist h' (bnext (?h a)) as' e \<and> set as' \<subseteq> set bs)"
        by blast
      have ha: "h' a = ?h a" using out anin by simp
      have "e < 2 ^ 64 \<longrightarrow> (\<exists>as'. blist h' p as' e \<and> set as' \<subseteq> set as)"
      proof
        assume "e < (2::nat) ^ 64"
        with bl obtain bs' where "blist h' (bnext (?h a)) bs' e" "set bs' \<subseteq> set bs" by blast
        then have "blist h' p (a # bs') e \<and> set (a # bs') \<subseteq> set as"
          using pa ext ha Cons by auto
        then show "\<exists>as'. blist h' p as' e \<and> set as' \<subseteq> set as" by blast
      qed
      moreover have "\<forall>x. x \<notin> set as \<longrightarrow> h' x = ?h x" using out Cons by simp
      ultimately show ?thesis using step r fr nf by auto
    next
      case True
      let ?b = "bnext (?h a)"
      from True chain obtain cs where bs: "bs = ?b # cs" using blist_nonnull by blast
      with chain have chain2: "blist ?h (bnext (?h ?b)) cs e"
        and extb: "unat ?b + 24 + unat (bsize (?h ?b)) = (if bnext (?h ?b) = 0 then e else unat (bnext (?h ?b)))"
        by auto
      have ab: "?b \<noteq> a" using anin bs by auto
      let ?A = "(?h a)\<lparr>bsize := bsize (?h a) + (bsize (?h ?b) + sizeof_block), bnext := bnext (?h ?b)\<rparr>"
      let ?s1 = "s\<lparr>blocks := ?h(a := ?A), num_coalesces := num_coalesces s + 1\<rparr>"
      have s1: "absorb_next a s = ?s1" using absorb_next_eq [OF ab] .
      have step: "coalesce s p = coalesce ?s1 (bnext (?h ?b))"
        using True pa s1 by (subst coalesce.simps) simp
      have acs: "a \<notin> set cs" using anin bs by simp
      have "blist (blocks ?s1) (bnext (?h ?b)) cs e = blist ?h (bnext (?h ?b)) cs e"
        by (rule blist_cong) (use acs in auto)
      with chain2 have chain1: "blist (blocks ?s1) (bnext (?h ?b)) cs e" by simp
      have "length cs < length as" using Cons bs by simp
      from less.hyps [OF this chain1] obtain h' n where
        r: "coalesce ?s1 (bnext (?h ?b)) = Some (?s1\<lparr>blocks := h', num_coalesces := n\<rparr>)"
        and fr: "\<forall>x. bfree (h' x) = bfree (blocks ?s1 x)"
        and out: "\<forall>x. x \<notin> set cs \<longrightarrow> h' x = blocks ?s1 x"
        and nf: "\<forall>x. \<not> bfree (blocks ?s1 x) \<longrightarrow> h' x = blocks ?s1 x"
        and bl: "e < 2 ^ 64 \<longrightarrow> (\<exists>as'. blist h' (bnext (?h ?b)) as' e \<and> set as' \<subseteq> set cs)"
        by blast
      have r': "coalesce s p = Some (s\<lparr>blocks := h', num_coalesces := n\<rparr>)"
        using step r by simp
      have fr': "\<forall>x. bfree (h' x) = bfree (?h x)" using fr by simp
      have out': "\<forall>x. x \<notin> set as \<longrightarrow> h' x = ?h x" using out Cons bs by simp
      have nf': "\<forall>x. \<not> bfree (?h x) \<longrightarrow> h' x = ?h x"
      proof (intro allI impI)
        fix x assume x: "\<not> bfree (?h x)"
        with True have xa: "x \<noteq> a" by auto
        with x have "\<not> bfree (blocks ?s1 x)" by simp
        with nf have "h' x = blocks ?s1 x" by blast
        with xa show "h' x = ?h x" by simp
      qed
      have ha: "h' a = ?A" using out acs by simp
      have "e < 2 ^ 64 \<longrightarrow> (\<exists>as'. blist h' p as' e \<and> set as' \<subseteq> set as)"
      proof
        assume e: "e < (2::nat) ^ 64"
        with bl obtain cs' where cs': "blist h' (bnext (?h ?b)) cs' e" "set cs' \<subseteq> set cs" by blast
        have "?b \<in> set bs" using bs by simp
        from blist_bounds [OF chain this] have "unat ?b + 24 + unat (bsize (?h ?b)) \<le> e" by simp
        with ext True e have small: "unat (bsize (?h a)) + (unat (bsize (?h ?b)) + 24) < 2 ^ 64"
          by simp
        have "unat (bsize (?h ?b) + sizeof_block) = unat (bsize (?h ?b)) + 24"
          using small by (simp add: unat_add_lem [THEN iffD1])
        then have "unat (bsize (?h a) + (bsize (?h ?b) + sizeof_block))
                     = unat (bsize (?h a)) + (unat (bsize (?h ?b)) + 24)"
          using small by (simp add: unat_add_lem [THEN iffD1])
        then have "blist h' p (a # cs') e"
          using pa ha ext extb True cs' by (auto split: if_splits)
        moreover have "set (a # cs') \<subseteq> set as" using cs' Cons bs by auto
        ultimately show "\<exists>as'. blist h' p as' e \<and> set as' \<subseteq> set as" by blast
      qed
      with r' fr' out' nf' show ?thesis by blast
    qed
  qed
qed

subsection \<open>free and malloc\<close>

lemma free_blist:
  assumes "blist (blocks s) (heapList s) as e" "ptr \<noteq> 0" "\<not> bfree (blocks s (BLOCK_HEADER ptr))"
  shows "\<exists>h' n. free s ptr
             = Some (Inr (s\<lparr>blocks := h', num_coalesces := n, num_frees := num_frees s + 1\<rparr>))
           \<and> bfree (h' (BLOCK_HEADER ptr))
           \<and> (\<forall>x. x \<noteq> BLOCK_HEADER ptr \<and> \<not> bfree (blocks s x) \<longrightarrow> h' x = blocks s x)
           \<and> (e < 2 ^ 64 \<longrightarrow> (\<exists>as'. blist h' (heapList s) as' e))"
proof -
  let ?s1 = "upd_block (BLOCK_HEADER ptr) (\<lambda>b. b\<lparr>bfree := True\<rparr>) s"
  have "blist (blocks ?s1) (heapList ?s1) as e = blist (blocks s) (heapList s) as e"
    unfolding upd_block_def by (simp, rule blist_cong) simp
  with assms(1) have "blist (blocks ?s1) (heapList ?s1) as e" by simp
  from coalesce_blist [OF this] obtain h' n where
    r: "coalesce ?s1 (heapList ?s1) = Some (?s1\<lparr>blocks := h', num_coalesces := n\<rparr>)"
    and fr: "\<forall>x. bfree (h' x) = bfree (blocks ?s1 x)"
    and nf: "\<forall>x. \<not> bfree (blocks ?s1 x) \<longrightarrow> h' x = blocks ?s1 x"
    and bl: "e < 2 ^ 64 \<longrightarrow> (\<exists>as'. blist h' (heapList ?s1) as' e \<and> set as' \<subseteq> set as)"
    by blast
  have "free s ptr = Some (Inr (s\<lparr>blocks := h', num_coalesces := n, num_frees := num_frees s + 1\<rparr>))"
    using assms(2,3) r by (simp add: free_def Let_def upd_block_def)
  moreover have "bfree (h' (BLOCK_HEADER ptr))" using fr by (simp add: upd_block_def)
  moreover have "\<forall>x. x \<noteq> BLOCK_HEADER ptr \<and> \<not> bfree (blocks s x) \<longrightarrow> h' x = blocks s x"
    using nf by (simp add: upd_block_def)
  moreover have "e < 2 ^ 64 \<longrightarrow> (\<exists>as'. blist h' (heapList s) as' e)"
    using bl by (auto simp: upd_block_def)
  ultimately show ?thesis by blast
qed

lemma free_total:
  assumes "blist (blocks s) (heapList s) as e"
  shows "\<exists>r. free s ptr = Some r"
proof (cases "ptr \<noteq> 0 \<and> \<not> bfree (blocks s (BLOCK_HEADER ptr))")
  case True
  with free_blist [OF assms, of ptr] show ?thesis by blast
next
  case False
  then show ?thesis by (auto simp: free_def Let_def)
qed

lemma free_inv:
  assumes "heap_inv s as" and "free s ptr = Some (Inr s')"
  shows "\<exists>as'. heap_inv s' as'"
proof (cases "ptr = 0")
  case True
  with assms show ?thesis by (auto simp: free_def)
next
  case False
  with assms(2) have nf: "\<not> bfree (blocks s (BLOCK_HEADER ptr))"
    by (auto simp: free_def Let_def split: if_splits)
  have bl: "blist (blocks s) (heapList s) as (unat (brk s))" using assms(1) by (simp add: heap_inv_def)
  have e: "unat (brk s) < 2 ^ 64" using heap_inv_brk_bound [OF assms(1)] by simp
  from free_blist [OF bl False nf] e assms(2) obtain h' n as' where
    "s' = s\<lparr>blocks := h', num_coalesces := n, num_frees := num_frees s + 1\<rparr>"
    "blist h' (heapList s) as' (unat (brk s))" by auto
  with assms(1) have "heap_inv s' as'" by (simp add: heap_inv_def)
  then show ?thesis ..
qed

lemma malloc_inv:
  assumes "heap_inv s as"
  shows "\<exists>r. malloc strat s size0 = Some r \<and>
     (\<forall>p s'. r = Inr (p, s') \<longrightarrow>
        bytes s' = bytes s
      \<and> (\<exists>as' e. blist (blocks s') (heapList s') as' e \<and> set as \<subseteq> set as')
      \<and> (\<forall>a\<in>set as. \<not> bfree (blocks s a) \<longrightarrow>
            bsize (blocks s' a) = bsize (blocks s a) \<and> \<not> bfree (blocks s' a)
            \<and> p \<noteq> BLOCK_DATA a)
      \<and> (p \<noteq> 0 \<longrightarrow> \<not> bfree (blocks s' (BLOCK_HEADER p))
                     \<and> ALIGN4 size0 \<le> bsize (blocks s' (BLOCK_HEADER p)))
      \<and> (unat (ALIGN4 size0) + 24 < 2 ^ 63 \<longrightarrow>
            (\<exists>as'. heap_inv s' as' \<and> set as \<subseteq> set as'
                   \<and> (p \<noteq> 0 \<longrightarrow> BLOCK_HEADER p \<in> set as'))))"
proof (cases "ALIGN4 size0 = 0")
  case True
  have "blist (blocks s) (heapList s) as (unat (brk s))" using assms by (simp add: heap_inv_def)
  moreover have "\<forall>a\<in>set as. 0 \<noteq> BLOCK_DATA a"
    using heap_inv_block_data [OF assms] by fastforce
  moreover have "\<exists>as'. heap_inv (register_exit_hook s) as' \<and> set as \<subseteq> set as'"
    using assms by (intro exI [of _ as]) simp
  ultimately show ?thesis using True by (auto simp add: malloc_zero)
next
  case False
  let ?sz = "ALIGN4 size0"
  let ?s1 = "register_exit_hook s"
  from malloc_scan [OF assms, of strat ?sz] obtain c l where
    ff: "findFreeBlock strat ?s1 (heapList s) ?sz = Some (c, l, ?s1)"
    and c: "c = 0 \<or> c \<in> set as \<and> bfree (blocks s c) \<and> ?sz \<le> bsize (blocks s c)"
    and l: "c = 0 \<longrightarrow> l = (if as = [] then 0 else last as)"
    by blast
  have inv1: "heap_inv ?s1 as" using assms by simp
  show ?thesis
  proof (cases "c = 0")
    case cnz: False
    with c have cin: "c \<in> set as" and cfree: "bfree (blocks s c)" and le: "?sz \<le> bsize (blocks s c)"
      by simp_all
    let ?X = "if ?sz + sizeof_block < bsize (blocks ?s1 c) then split_block c ?sz ?s1 else ?s1"
    have m: "malloc strat s size0 = Some (Inr (hand_out c ?sz (?X\<lparr>num_reuses := num_reuses ?X + 1\<rparr>)))"
      using malloc_found [OF False ff cnz] .
    have X: "\<exists>as'. heap_inv ?X as' \<and> set as \<subseteq> set as'
                \<and> (\<forall>a\<in>set as. a \<noteq> c \<longrightarrow> blocks ?X a = blocks s a)
                \<and> ?sz \<le> bsize (blocks ?X c)"
    proof (cases "?sz + sizeof_block < bsize (blocks s c)")
      case True
      let ?nb = "c + sizeof_block + ?sz"
      from split_block_inv [OF inv1 cin] le True obtain as' where
        as': "heap_inv (split_block c ?sz ?s1) as'" "set as' = insert ?nb (set as)" by auto
      have lt: "unat ?sz + 24 < unat (bsize (blocks s c))"
        using split_test [OF assms cin le] True by simp
      have "unat c + 24 + unat ?sz < 2 ^ 64"
        using heap_inv_block_bound [OF assms cin] lt by simp
      then have nbu: "unat ?nb = unat c + 24 + unat ?sz" by (rule unat_block_end)
      have ne: "?nb \<noteq> c"
      proof
        assume h: "?nb = c"
        have "unat ?nb = unat c" by (simp only: h)
        with nbu show False by linarith
      qed
      have bl: "blist (blocks s) (heapList s) as (unat (brk s))" using assms by (simp add: heap_inv_def)
      have nin: "?nb \<notin> set as"
      proof
        assume "?nb \<in> set as"
        from blist_separated [OF bl cin this] ne nbu lt show False by linarith
      qed
      have "\<forall>a\<in>set as. a \<noteq> c \<longrightarrow> blocks (split_block c ?sz ?s1) a = blocks s a"
        using split_block_fields(7) [OF ne, of _ ?s1] nin by auto
      moreover have "bsize (blocks (split_block c ?sz ?s1) c) = ?sz"
        by (rule split_block_fields(1) [OF ne])
      ultimately show ?thesis using as' True by auto
    next
      case False
      with inv1 le show ?thesis by auto
    qed
    then obtain as' where as': "heap_inv ?X as'" "set as \<subseteq> set as'"
      "\<forall>a\<in>set as. a \<noteq> c \<longrightarrow> blocks ?X a = blocks s a"
      and Xsz: "?sz \<le> bsize (blocks ?X c)" by blast
    let ?s' = "snd (hand_out c ?sz (?X\<lparr>num_reuses := num_reuses ?X + 1\<rparr>))"
    have i: "heap_inv ?s' as'" using as'(1) by simp
    then have "blist (blocks ?s') (heapList ?s') as' (unat (brk ?s'))" by (simp add: heap_inv_def)
    then have w: "\<exists>as' e. blist (blocks ?s') (heapList ?s') as' e \<and> set as \<subseteq> set as'"
      using as'(2) by blast
    have b: "bytes ?s' = bytes s" by simp
    have o: "\<forall>a\<in>set as. \<not> bfree (blocks s a) \<longrightarrow>
            bsize (blocks ?s' a) = bsize (blocks s a) \<and> \<not> bfree (blocks ?s' a)
            \<and> BLOCK_DATA c \<noteq> BLOCK_DATA a"
    proof (intro ballI impI)
      fix a assume a: "a \<in> set as" "\<not> bfree (blocks s a)"
      with cfree have ac: "a \<noteq> c" by auto
      with as'(3) a have "blocks ?X a = blocks s a" by simp
      with a ac show "bsize (blocks ?s' a) = bsize (blocks s a) \<and> \<not> bfree (blocks ?s' a)
            \<and> BLOCK_DATA c \<noteq> BLOCK_DATA a"
        by (simp add: BLOCK_DATA_def)
    qed
    have hd: "BLOCK_HEADER (BLOCK_DATA c) = c" by (simp add: BLOCK_HEADER_def BLOCK_DATA_def)
    have k: "\<not> bfree (blocks ?s' c)" "?sz \<le> bsize (blocks ?s' c)" using Xsz by simp_all
    have i': "\<exists>as'. heap_inv ?s' as' \<and> set as \<subseteq> set as' \<and> (BLOCK_DATA c \<noteq> 0 \<longrightarrow> c \<in> set as')"
      using i as'(2) cin by blast
    define s' where "s' = ?s'"
    have "malloc strat s size0 = Some (Inr (BLOCK_DATA c, s'))"
      unfolding s'_def using m by (simp add: prod_eq_iff)
    moreover have "bytes s' = bytes s"
      "\<exists>as' e. blist (blocks s') (heapList s') as' e \<and> set as \<subseteq> set as'"
      "\<forall>a\<in>set as. \<not> bfree (blocks s a) \<longrightarrow>
            bsize (blocks s' a) = bsize (blocks s a) \<and> \<not> bfree (blocks s' a)
            \<and> BLOCK_DATA c \<noteq> BLOCK_DATA a"
      "\<not> bfree (blocks s' c)" "?sz \<le> bsize (blocks s' c)"
      "\<exists>as'. heap_inv s' as' \<and> set as \<subseteq> set as' \<and> (BLOCK_DATA c \<noteq> 0 \<longrightarrow> c \<in> set as')"
      unfolding s'_def using i' w b o k by blast+
    ultimately show ?thesis by (simp add: hd)
  next
    case cz: True
    have b: "brk_min ?s1 \<le> brk ?s1" "brk ?s1 \<le> brk_max ?s1"
      using assms by (simp_all add: heap_inv_def)
    have m: "malloc strat s size0 =
      (case growHeap ?s1 l ?sz of
        Inl e \<Rightarrow> Some (Inl e)
      | Inr (g, s3) \<Rightarrow> if g = 0 then Some (Inr (0, s3))
                       else Some (Inr (hand_out g ?sz s3)))"
      using malloc_notfound [OF False] ff cz by simp
    from growHeap_cases [OF b heap_inv_brk_data(3) [OF inv1], of l ?sz]
    show ?thesis
    proof
      assume "growHeap ?s1 l ?sz = Inl AssertionFailed"
      with m show ?thesis by simp
    next
      assume "\<exists>b'. growHeap ?s1 l ?sz =
            Inr (brk ?s1, new_block (brk ?s1) l ?sz (?s1\<lparr>brk := b'\<rparr>)) \<and>
            (unat (sizeof_block + ?sz) < 2 ^ 63 \<longrightarrow>
             b' = brk ?s1 + (sizeof_block + ?sz) \<and>
             unat (brk ?s1) + unat (sizeof_block + ?sz) \<le> unat (brk_max ?s1))"
      then obtain b' where g: "growHeap ?s1 l ?sz =
            Inr (brk s, new_block (brk s) l ?sz (?s1\<lparr>brk := b'\<rparr>))"
        and b': "unat (sizeof_block + ?sz) < 2 ^ 63 \<longrightarrow>
             b' = brk s + (sizeof_block + ?sz) \<and>
             unat (brk s) + unat (sizeof_block + ?sz) \<le> unat (brk_max s)"
        by auto
      let ?N = "new_block (brk s) l ?sz (?s1\<lparr>brk := b'\<rparr>)"
      let ?s' = "snd (hand_out (brk s) ?sz ?N)"
      have m': "malloc strat s size0 = Some (Inr (hand_out (brk s) ?sz ?N))"
        using m g heap_inv_brk_data(2) [OF assms] by simp
      have bl: "blist (blocks (?s1\<lparr>brk := b'\<rparr>)) (heapList (?s1\<lparr>brk := b'\<rparr>)) as (unat (brk s))"
        using assms by (simp add: heap_inv_def)
      have leq: "l = (if as = [] then 0 else last as)" using l cz by simp
      have nbl: "blist (blocks ?N) (heapList ?N) (as @ [brk s]) (unat (brk s) + 24 + unat ?sz)"
        unfolding leq by (rule new_block_blist [OF bl heap_inv_brk_data(2) [OF assms]])
      then have w: "\<exists>as' e. blist (blocks ?s') (heapList ?s') as' e \<and> set as \<subseteq> set as'"
        by (intro exI [of _ "as @ [brk s]"] exI [of _ "unat (brk s) + 24 + unat ?sz"]) auto
      have nin: "\<And>a. a \<in> set as \<Longrightarrow> a \<noteq> brk s"
        using blist_bounds [of "blocks s" "heapList s" as "unat (brk s)"] assms
        by (fastforce simp: heap_inv_def)
      have o: "\<forall>a\<in>set as. \<not> bfree (blocks s a) \<longrightarrow>
            bsize (blocks ?s' a) = bsize (blocks s a) \<and> \<not> bfree (blocks ?s' a)
            \<and> BLOCK_DATA (brk s) \<noteq> BLOCK_DATA a"
        using nin by (simp add: BLOCK_DATA_def) metis
      have bt: "bytes ?s' = bytes s" by simp
      have i: "unat ?sz + 24 < 2 ^ 63 \<longrightarrow>
                 (\<exists>as'. heap_inv ?s' as' \<and> set as \<subseteq> set as'
                        \<and> (BLOCK_DATA (brk s) \<noteq> 0 \<longrightarrow> brk s \<in> set as'))"
      proof
        assume bound: "unat ?sz + 24 < (2::nat) ^ 63"
        then have "unat sizeof_block + unat ?sz < 2 ^ 64" by simp
        then have u: "unat (sizeof_block + ?sz) = 24 + unat ?sz"
          by (simp add: unat_add_lem [THEN iffD1])
        with bound b' have b'eq: "b' = brk s + (sizeof_block + ?sz)"
          and lim: "unat (brk s) + (24 + unat ?sz) \<le> unat (brk_max s)" by simp_all
        have "unat (brk s) + unat (sizeof_block + ?sz) < 2 ^ 64"
          using lim u assms by (simp add: heap_inv_def)
        then have ub: "unat b' = unat (brk s) + 24 + unat ?sz"
          unfolding b'eq using u by (simp add: unat_add_lem [THEN iffD1])
        have "heap_inv ?s' (as @ [brk s])"
          using nbl ub lim assms
          by (simp add: heap_inv_def word_le_nat_alt)
        then show "\<exists>as'. heap_inv ?s' as' \<and> set as \<subseteq> set as'
                        \<and> (BLOCK_DATA (brk s) \<noteq> 0 \<longrightarrow> brk s \<in> set as')"
          by (intro exI [of _ "as @ [brk s]"]) auto
      qed
      have hd: "BLOCK_HEADER (BLOCK_DATA (brk s)) = brk s"
        by (simp add: BLOCK_HEADER_def BLOCK_DATA_def)
      have k: "\<not> bfree (blocks ?s' (brk s))" "?sz \<le> bsize (blocks ?s' (brk s))" by simp_all
      define s' where "s' = ?s'"
      have "malloc strat s size0 = Some (Inr (BLOCK_DATA (brk s), s'))"
        unfolding s'_def using m' by (simp add: prod_eq_iff)
      moreover have "bytes s' = bytes s"
        "\<exists>as' e. blist (blocks s') (heapList s') as' e \<and> set as \<subseteq> set as'"
        "\<forall>a\<in>set as. \<not> bfree (blocks s a) \<longrightarrow>
              bsize (blocks s' a) = bsize (blocks s a) \<and> \<not> bfree (blocks s' a)
              \<and> BLOCK_DATA (brk s) \<noteq> BLOCK_DATA a"
        "\<not> bfree (blocks s' (brk s))" "?sz \<le> bsize (blocks s' (brk s))"
        "unat ?sz + 24 < 2 ^ 63 \<longrightarrow>
           (\<exists>as'. heap_inv s' as' \<and> set as \<subseteq> set as'
                  \<and> (BLOCK_DATA (brk s) \<noteq> 0 \<longrightarrow> brk s \<in> set as'))"
        unfolding s'_def using i w bt o k by blast+
      ultimately show ?thesis by (simp add: hd)
    qed
  qed
qed

subsection \<open>memset and memcpy\<close>

lemma of_nat_less_word: "i < unat (n :: 64 word) \<Longrightarrow> (of_nat i :: 64 word) < n"
  by (simp add: word_less_nat_alt le_unat_uoi [of i n])

lemma memset_bytes:
  "i < unat n \<Longrightarrow> bytes (memset p c n s) (p + of_nat i) = c"
  by (simp add: memset_def of_nat_less_word)

lemma memcpy_fields [simp]:
  "blocks (memcpy d src n s) = blocks s"
  "heapList (memcpy d src n s) = heapList s"
  "brk (memcpy d src n s) = brk s"
  "brk_min (memcpy d src n s) = brk_min s"
  "brk_max (memcpy d src n s) = brk_max s"
  "actualLast (memcpy d src n s) = actualLast s"
  by (simp_all add: memcpy_def)

lemma memcpy_bytes:
  "i < unat n \<Longrightarrow> bytes (memcpy d src n s) (d + of_nat i) = bytes s (src + of_nat i)"
  by (simp add: memcpy_def of_nat_less_word)

lemma heap_inv_memcpy [simp]: "heap_inv (memcpy d src n s) as = heap_inv s as"
  by (simp add: heap_inv_def)

lemma heap_inv_memset [simp]: "heap_inv (memset p c n s) as = heap_inv s as"
  by (simp add: heap_inv_def memset_def)

text \<open>
  The payload of a block of an address-ordered heap starts 24 bytes after its header and
  ends at or below the break.
\<close>

lemma heap_inv_payload:
  assumes "heap_inv s as" "c \<in> set as"
  shows "unat (BLOCK_DATA c) = unat c + 24"
    and "unat (BLOCK_DATA c) + unat (bsize (blocks s c)) \<le> unat (brk s)"
proof -
  have b: "unat c + 24 + unat (bsize (blocks s c)) \<le> unat (brk s)"
    using assms blist_bounds [of "blocks s" "heapList s" as "unat (brk s)" c]
    by (simp add: heap_inv_def)
  then have "unat c + unat sizeof_block < 2 ^ 64" using heap_inv_brk_bound [OF assms(1)] by simp
  then show d: "unat (BLOCK_DATA c) = unat c + 24"
    by (simp add: BLOCK_DATA_def unat_add_lem [THEN iffD1])
  show "unat (BLOCK_DATA c) + unat (bsize (blocks s c)) \<le> unat (brk s)"
    using b d by simp
qed

text \<open>
  \<open>calloc\<close> on an address-ordered heap, for a product whose rounded value plus one
  header is below \<open>2^63\<close>: when it returns a pointer that is not null, the
  \<open>nmemb * size\<close> bytes from there read as zero, and they lie in the payload of an
  allocated block of the list, below the break.
\<close>

lemma calloc_zero_fills:
  assumes "heap_inv s as" and "unat (ALIGN4 (nmemb * size0)) + 24 < 2 ^ 63"
    and "calloc strat s nmemb size0 = Some (Inr (p, s'))" and "p \<noteq> 0"
  shows "(\<forall>i. i < unat (nmemb * size0) \<longrightarrow> bytes s' (p + of_nat i) = 0)
     \<and> (\<exists>as'. heap_inv s' as' \<and> BLOCK_HEADER p \<in> set as')
     \<and> \<not> bfree (blocks s' (BLOCK_HEADER p))
     \<and> nmemb * size0 \<le> bsize (blocks s' (BLOCK_HEADER p))
     \<and> unat p + unat (nmemb * size0) \<le> unat (brk s')"
proof -
  let ?t = "nmemb * size0"
  from assms(3,4) obtain s1 where m: "malloc strat s ?t = Some (Inr (p, s1))"
    and s': "s' = memset p 0 ?t s1"
    by (auto simp add: calloc_def Let_def split: option.splits sum.splits if_splits)
  from malloc_inv [OF assms(1), of strat ?t] m assms(2,4)
  have nfr: "\<not> bfree (blocks s1 (BLOCK_HEADER p))"
    and nsz: "ALIGN4 ?t \<le> bsize (blocks s1 (BLOCK_HEADER p))"
    and "\<exists>as'. heap_inv s1 as' \<and> BLOCK_HEADER p \<in> set as'"
    by auto
  then obtain as' where inv1: "heap_inv s1 as'" "BLOCK_HEADER p \<in> set as'" by blast
  have anz: "ALIGN4 ?t \<noteq> 0"
  proof
    assume "ALIGN4 ?t = 0"
    from malloc_zero [OF this, of strat s] m assms(4) show False by simp
  qed
  have fit: "?t \<le> bsize (blocks s1 (BLOCK_HEADER p))" using ALIGN4_ge [OF anz] nsz by simp
  have pd: "BLOCK_DATA (BLOCK_HEADER p) = p" by (simp add: BLOCK_DATA_def BLOCK_HEADER_def)
  have "unat p + unat (bsize (blocks s1 (BLOCK_HEADER p))) \<le> unat (brk s1)"
    using heap_inv_payload(2) [OF inv1] pd by simp
  then have below: "unat p + unat ?t \<le> unat (brk s1)"
    using fit by (simp add: word_le_nat_alt)
  have b: "blocks s' = blocks s1" "brk s' = brk s1" unfolding s' by (simp_all add: memset_def)
  have "\<forall>i. i < unat ?t \<longrightarrow> bytes s' (p + of_nat i) = 0"
    unfolding s' by (simp add: memset_bytes)
  moreover have "\<exists>as'. heap_inv s' as' \<and> BLOCK_HEADER p \<in> set as'"
    unfolding s' using inv1 by (intro exI [of _ as']) simp
  ultimately show ?thesis using nfr fit b below by simp
qed

section \<open>Every operation keeps the invariant\<close>

lemma initial_inv:
  assumes "0 < b" "b \<le> m" "unat m < 2 ^ 63"
  shows "heap_inv (initial b m) []"
  using assms by (simp add: heap_inv_def initial_def)

lemma malloc_keeps_inv:
  assumes "heap_inv s as" "unat (ALIGN4 size0) + 24 < 2 ^ 63"
  shows "\<exists>r. malloc strat s size0 = Some r
           \<and> (\<forall>p s'. r = Inr (p, s') \<longrightarrow> (\<exists>as'. heap_inv s' as'))"
  using malloc_inv [OF assms(1), of strat size0] assms(2) by blast

lemma free_keeps_inv:
  assumes "heap_inv s as"
  shows "\<exists>r. free s ptr = Some r \<and> (\<forall>s'. r = Inr s' \<longrightarrow> (\<exists>as'. heap_inv s' as'))"
proof -
  have "blist (blocks s) (heapList s) as (unat (brk s))" using assms by (simp add: heap_inv_def)
  from free_total [OF this, of ptr] obtain r where r: "free s ptr = Some r" by blast
  with free_inv [OF assms] show ?thesis by blast
qed

lemma calloc_keeps_inv:
  assumes "heap_inv s as" "unat (ALIGN4 (nmemb * size0)) + 24 < 2 ^ 63"
  shows "\<exists>r. calloc strat s nmemb size0 = Some r
           \<and> (\<forall>p s'. r = Inr (p, s') \<longrightarrow> (\<exists>as'. heap_inv s' as'))"
proof -
  from malloc_keeps_inv [OF assms, of strat] obtain r where
    m: "malloc strat s (nmemb * size0) = Some r"
    and i: "\<forall>p s'. r = Inr (p, s') \<longrightarrow> (\<exists>as'. heap_inv s' as')" by blast
  show ?thesis
  proof (cases r)
    case (Inl e)
    with m show ?thesis by (simp add: calloc_def)
  next
    case (Inr x)
    obtain p s1 where x: "x = (p, s1)" by (cases x)
    with Inr i obtain as' where "heap_inv s1 as'" by blast
    then have "\<exists>as'. heap_inv (if p \<noteq> 0 then memset p 0 (nmemb * size0) s1 else s1) as'"
      by (cases "p = 0") auto
    with m Inr x show ?thesis by (simp add: calloc_def)
  qed
qed

lemma realloc_keeps_inv:
  assumes "heap_inv s as" "unat (ALIGN4 size0) + 24 < 2 ^ 63"
  shows "\<exists>r. realloc strat s ptr size0 = Some r
           \<and> (\<forall>p s'. r = Inr (p, s') \<longrightarrow> (\<exists>as'. heap_inv s' as'))"
proof -
  consider "ptr = 0" | "ptr \<noteq> 0" "size0 = 0" | "ptr \<noteq> 0" "size0 \<noteq> 0" by blast
  then show ?thesis
  proof cases
    case 1
    with malloc_keeps_inv [OF assms, of strat] show ?thesis by (simp add: realloc_def)
  next
    case 2
    from free_keeps_inv [OF assms(1), of ptr] obtain r where
      f: "free s ptr = Some r" and i: "\<forall>s'. r = Inr s' \<longrightarrow> (\<exists>as'. heap_inv s' as')" by blast
    show ?thesis using 2 f i by (cases r) (simp_all add: realloc_def)
  next
    case 3
    from malloc_keeps_inv [OF assms, of strat] obtain r where
      m: "malloc strat s size0 = Some r"
      and i: "\<forall>p s'. r = Inr (p, s') \<longrightarrow> (\<exists>as'. heap_inv s' as')" by blast
    show ?thesis
    proof (cases r)
      case (Inl e)
      with 3 m show ?thesis by (simp add: realloc_def)
    next
      case (Inr x)
      obtain np s1 where x: "x = (np, s1)" by (cases x)
      with Inr i obtain as1 where i1: "heap_inv s1 as1" by blast
      show ?thesis
      proof (cases "np = 0")
        case True
        with 3 m Inr x i1 show ?thesis by (auto simp add: realloc_def)
      next
        case False
        let ?n = "if bsize (blocks s1 (BLOCK_HEADER ptr)) < size0
                  then bsize (blocks s1 (BLOCK_HEADER ptr)) else size0"
        have "heap_inv (memcpy np ptr ?n s1) as1" using i1 by simp
        from free_keeps_inv [OF this, of ptr] obtain r' where
          f: "free (memcpy np ptr ?n s1) ptr = Some r'"
          and i': "\<forall>s'. r' = Inr s' \<longrightarrow> (\<exists>as'. heap_inv s' as')" by blast
        show ?thesis using 3 m Inr x False f i'
          by (cases r') (simp_all add: realloc_def Let_def)
      qed
    qed
  qed
qed

lemma coalesce_keeps_inv:
  assumes "heap_inv s as"
  shows "\<exists>s' as'. coalesce s (heapList s) = Some s' \<and> heap_inv s' as' \<and> set as' \<subseteq> set as"
proof -
  have bl: "blist (blocks s) (heapList s) as (unat (brk s))"
    using assms by (simp add: heap_inv_def)
  have e: "unat (brk s) < 2 ^ 64" using heap_inv_brk_bound [OF assms] by simp
  from coalesce_blist [OF bl] e obtain h' n as' where
    c: "coalesce s (heapList s) = Some (s\<lparr>blocks := h', num_coalesces := n\<rparr>)"
    and b: "blist h' (heapList s) as' (unat (brk s))" "set as' \<subseteq> set as" by blast
  from b assms have "heap_inv (s\<lparr>blocks := h', num_coalesces := n\<rparr>) as'"
    by (simp add: heap_inv_def)
  with c b(2) show ?thesis by blast
qed

lemma split_keeps_inv:
  assumes "heap_inv s as" "c \<in> set as" "sz \<le> bsize (blocks s c)"
    and "sz + sizeof_block < bsize (blocks s c)"
  shows "bnext (blocks (split_block c sz s) c) = c + sizeof_block + sz
         \<and> bnext (blocks (split_block c sz s) (c + sizeof_block + sz)) = bnext (blocks s c)
         \<and> (\<exists>as'. heap_inv (split_block c sz s) as'
                \<and> set as' = insert (c + sizeof_block + sz) (set as))"
proof -
  have lt: "unat sz + 24 < unat (bsize (blocks s c))"
    using assms split_test by blast
  have "unat c + 24 + unat sz < 2 ^ 64"
    using heap_inv_block_bound [OF assms(1,2)] lt by simp
  then have nbu: "unat (c + sizeof_block + sz) = unat c + 24 + unat sz" by (rule unat_block_end)
  have ne: "c + sizeof_block + sz \<noteq> c"
  proof
    assume h: "c + sizeof_block + sz = c"
    have "unat (c + sizeof_block + sz) = unat c" by (simp only: h)
    with nbu show False by linarith
  qed
  show ?thesis
    using split_block_fields(2,5) [OF ne] split_block_inv [OF assms] by blast
qed

section \<open>Claims\<close>

text \<open>
  C1. The claim: when the scan finds no usable block and the operating system denies the
  extension, \<open>malloc\<close> returns null. The code does not: \<open>growHeap\<close> asserts
  \<open>curr == prev\<close> before it tests for failure, where \<open>curr\<close> is the break returned
  by \<open>sbrk(0)\<close> and \<open>prev\<close> is the sentinel returned by the denied request. On the
  empty heap \<open>at_limit\<close>, whose break is at the limit, the scan of \<open>malloc(8)\<close> finds
  no block, the request of the 32 bytes is denied, and the call ends in the failed
  assertion instead of returning null.
\<close>

theorem os_denial_aborts:
  "findFreeBlock FirstFit (register_exit_hook at_limit)
       (heapList (register_exit_hook at_limit)) (ALIGN4 8)
     = Some (0, 0, register_exit_hook at_limit)
   \<and> fst (sbrk (sizeof_block + ALIGN4 8) (register_exit_hook at_limit)) = - 1
   \<and> malloc FirstFit at_limit 8 = Some (Inl AssertionFailed)"
  by (simp add: run_defs at_limit_def)

text \<open>
  C2. The claim: when a call of \<open>free\<close> completes, no two adjacent blocks of the list
  are both free. The code does not achieve this: after a merge the loop moves on to the
  successor of the merged block, so a third free block in a row is left alone. Three
  blocks of 8 bytes are allocated; the first and the third are freed, then the second.
  The last \<open>free\<close> merges the first two blocks into one of 40 bytes at 4096 and
  returns with its successor at 4160 still a separate free block: the list of the final
  state consists of these two blocks, and both are free.
\<close>

theorem free_leaves_adjacent_free_blocks:
  "malloc FirstFit three_s0 8 = Some (Inr (4120, three_s1))
   \<and> malloc FirstFit three_s1 8 = Some (Inr (4152, three_s2))
   \<and> malloc FirstFit three_s2 8 = Some (Inr (4184, three_s3))
   \<and> free three_s3 4120 = Some (Inr three_s4)
   \<and> free three_s4 4184 = Some (Inr three_s5)
   \<and> free three_s5 4152 = Some (Inr three_s6)
   \<and> heapList three_s6 = 4096
   \<and> bfree (blocks three_s6 4096)
   \<and> bnext (blocks three_s6 4096) = 4160
   \<and> bfree (blocks three_s6 4160)
   \<and> heap_inv three_s6 [4096, 4160]"
  by (simp add: run_defs three_defs heap_inv_def)

text \<open>
  C3. The claim: the scan returns no block or a free block that is large enough, chosen
  by the strategy; under worst fit one of largest size. The worst-fit loop keeps the
  largest size seen in an \<open>int\<close>, so a size of \<open>2^32 + 4\<close> is remembered as 4.
  In the run below the heap ends with a free block of \<open>2^32 + 4\<close> bytes at 4096, an
  allocated block of 4 bytes and a free block of 8 bytes at 4294971448, and it is
  address-ordered. For a request of 4 bytes the scan takes the first block, stores 4 in
  \<open>largest\<close>, and then prefers the block of 8 bytes: it returns the smaller of the
  two qualifying blocks, and \<open>malloc\<close> hands that one out.
\<close>

theorem worst_fit_misses_largest:
  "malloc WorstFit worst_s0 4294967300 = Some (Inr (4120, worst_s1))
   \<and> malloc WorstFit worst_s1 4 = Some (Inr (4294971444, worst_s2))
   \<and> malloc WorstFit worst_s2 8 = Some (Inr (4294971472, worst_s3))
   \<and> free worst_s3 4120 = Some (Inr worst_s4)
   \<and> free worst_s4 4294971472 = Some (Inr worst_s5)
   \<and> heap_inv worst_s5 [4096, 4294971420, 4294971448]
   \<and> findFreeBlock WorstFit worst_s5 (heapList worst_s5) (ALIGN4 4)
        = Some (4294971448, 4294971448, worst_s5)
   \<and> malloc WorstFit worst_s5 4 = Some (Inr (4294971472, worst_s6))
   \<and> bfree (blocks worst_s5 4096) \<and> bsize (blocks worst_s5 4096) = 4294967300
   \<and> bfree (blocks worst_s5 4294971448) \<and> bsize (blocks worst_s5 4294971448) = 8"
proof -
  have "malloc WorstFit worst_s0 4294967300 = Some (Inr (4120, worst_s1))"
    by (simp add: run_defs worst_defs)
  moreover have "malloc WorstFit worst_s1 4 = Some (Inr (4294971444, worst_s2))"
    by (simp add: run_defs worst_defs)
  moreover have "malloc WorstFit worst_s2 8 = Some (Inr (4294971472, worst_s3))"
    by (simp add: run_defs worst_defs)
  moreover have "free worst_s3 4120 = Some (Inr worst_s4)"
    by (simp add: run_defs worst_defs)
  moreover have "free worst_s4 4294971472 = Some (Inr worst_s5)"
    by (simp add: run_defs worst_defs)
  moreover have "heap_inv worst_s5 [4096, 4294971420, 4294971448]"
    by (simp add: heap_inv_def worst_defs initial_def sizeof_block_def)
  moreover have "findFreeBlock WorstFit worst_s5 (heapList worst_s5) (ALIGN4 4)
        = Some (4294971448, 4294971448, worst_s5)"
    by (simp add: run_defs worst_defs)
  moreover have "malloc WorstFit worst_s5 4 = Some (Inr (4294971472, worst_s6))"
    by (simp add: run_defs worst_defs)
  moreover have "bfree (blocks worst_s5 4096)" "bsize (blocks worst_s5 4096) = 4294967300"
    "bfree (blocks worst_s5 4294971448)" "bsize (blocks worst_s5 4294971448) = 8"
    by (simp_all add: worst_defs initial_def)
  ultimately show ?thesis by simp
qed

text \<open>
  C8. \<open>free(NULL)\<close> returns at once and leaves the state as it is; \<open>free\<close> on a
  pointer whose block is marked free ends in the failed assertion; \<open>free\<close> on a
  pointer whose block is not marked free never ends in the failed assertion.
\<close>

theorem free_null_and_double_free:
  "free s 0 = Some (Inr s)
   \<and> (ptr \<noteq> 0 \<and> bfree (blocks s (BLOCK_HEADER ptr))
        \<longrightarrow> free s ptr = Some (Inl AssertionFailed))
   \<and> (ptr \<noteq> 0 \<and> \<not> bfree (blocks s (BLOCK_HEADER ptr))
        \<longrightarrow> free s ptr \<noteq> Some (Inl AssertionFailed))"
  by (auto simp add: free_def Let_def split: option.splits)

theorem free_null_and_double_free_witness:
  "free three_s4 0 = Some (Inr three_s4)
   \<and> free three_s4 4120 = Some (Inl AssertionFailed)
   \<and> free three_s4 4152 \<noteq> Some (Inl AssertionFailed)"
  using free_null_and_double_free [of three_s4 4120] free_null_and_double_free [of three_s4 4152]
  by (simp add: three_defs BLOCK_HEADER_def sizeof_block_def initial_def)



text \<open>
  C5, as the claim states it: a request that rounds to zero returns null and changes no
  shared state. This fails on the first call of the process: \<open>malloc(0)\<close> on the
  initial state returns null, but it has installed the exit hook and set
  \<open>atexit_registered\<close>, because the registration stands before the test of the size.
\<close>

theorem zero_request_registers_hook:
  "malloc FirstFit three_s0 0
     = Some (Inr (0, three_s0\<lparr>atexit_registered := 1, exit_hooks := 1\<rparr>))
   \<and> atexit_registered three_s0 = 0 \<and> exit_hooks three_s0 = 0"
  by (simp add: malloc_zero ALIGN4_0 register_exit_hook_def three_defs initial_def)

text \<open>
  C5, amended. \<open>ALIGN4\<close> rounds a size between 1 and \<open>2^64 - 4\<close> up to the least
  multiple of 4 not below it, and yields zero exactly for the size 0 and for the sizes
  above \<open>2^64 - 4\<close> (where the addition wraps). A request that rounds to zero returns
  null, and the state it leaves differs from the state before at most in
  \<open>atexit_registered\<close> and in the registered exit hook, which the first call of
  \<open>malloc\<close> sets: no statistics counter and no part of the heap list changes.
\<close>

theorem zero_request_rejected:
  "(size0 \<noteq> 0 \<and> unat size0 \<le> 2 ^ 64 - 4
      \<longrightarrow> unat (ALIGN4 size0) = 4 * ((unat size0 + 3) div 4))
   \<and> (ALIGN4 size0 = 0 \<longleftrightarrow> size0 = 0 \<or> 2 ^ 64 - 4 < unat size0)
   \<and> (ALIGN4 size0 = 0 \<longrightarrow>
        malloc strat s size0 =
          Some (Inr (0, s\<lparr>atexit_registered := (if atexit_registered s = 0 then 1
                                                    else atexit_registered s),
                            exit_hooks := (if atexit_registered s = 0 then Suc (exit_hooks s)
                                             else exit_hooks s)\<rparr>)))"
proof -
  have a: "size0 \<noteq> 0 \<and> unat size0 \<le> 2 ^ 64 - 4
      \<longrightarrow> unat (ALIGN4 size0) = 4 * ((unat size0 + 3) div 4)"
    by (simp add: ALIGN4_unat)
  have "size0 \<noteq> 0 \<Longrightarrow> 0 < (unat size0 + 3) div 4"
    using unat_gt_0 [of size0] by simp
  then have "(unat (ALIGN4 size0) = 0) = (size0 = 0 \<or> 2 ^ 64 - 4 < unat size0)"
    unfolding ALIGN4_unat by auto
  then have b: "ALIGN4 size0 = 0 \<longleftrightarrow> size0 = 0 \<or> 2 ^ 64 - 4 < unat size0"
    by (simp add: unat_eq_0)
  have c: "ALIGN4 size0 = 0 \<longrightarrow>
        malloc strat s size0 =
          Some (Inr (0, s\<lparr>atexit_registered := (if atexit_registered s = 0 then 1
                                                    else atexit_registered s),
                            exit_hooks := (if atexit_registered s = 0 then Suc (exit_hooks s)
                                             else exit_hooks s)\<rparr>))"
    by (simp add: malloc_zero register_exit_hook_def)
  from a b c show ?thesis by blast
qed

theorem zero_request_rejected_witness:
  "unat (ALIGN4 5) = 8
   \<and> ALIGN4 0 = 0
   \<and> malloc BestFit three_s3 0 = Some (Inr (0, three_s3))"
proof -
  have "unat (ALIGN4 5) = 8" using zero_request_rejected [of 5] by simp
  moreover have "ALIGN4 0 = 0" using zero_request_rejected [of 0] by simp
  moreover have "malloc BestFit three_s3 0 = Some (Inr (0, three_s3))"
    using zero_request_rejected [of 0 BestFit three_s3] by (simp add: three_defs)
  ultimately show ?thesis by simp
qed

text \<open>
  C7. The claim: on allocation failure \<open>calloc\<close> returns null. The code does not, for
  the failure of C1: \<open>calloc(2, 4)\<close> passes the product 8 to \<open>malloc\<close>; on the
  empty heap \<open>at_limit\<close>, whose break is at the limit of the operating system, the scan
  finds no block, the request of the 32 bytes is denied, and \<open>growHeap\<close> ends in the
  failed assertion \<open>curr == prev\<close>. The call of \<open>calloc\<close> ends there, before its
  test of the pointer.
\<close>

theorem calloc_aborts_on_denial:
  "findFreeBlock FirstFit (register_exit_hook at_limit)
       (heapList (register_exit_hook at_limit)) (ALIGN4 (2 * 4))
     = Some (0, 0, register_exit_hook at_limit)
   \<and> sbrk (sizeof_block + ALIGN4 (2 * 4)) (register_exit_hook at_limit)
       = (- 1, register_exit_hook at_limit)
   \<and> malloc FirstFit at_limit (2 * 4) = Some (Inl AssertionFailed)
   \<and> calloc FirstFit at_limit 2 4 = Some (Inl AssertionFailed)"
  by (simp add: run_defs calloc_def at_limit_def)




text \<open>
  C6, as the claim states it: for a pointer that is not null and a size that is not 0,
  \<open>realloc\<close> allocates a fresh block, copies, frees the old block and returns the new
  pointer. This fails in two ways. First, a size above \<open>2^64 - 4\<close> rounds to zero, the
  inner \<open>malloc\<close> rejects it, and \<open>realloc\<close> returns null with the old block still
  allocated: after \<open>p = malloc(8)\<close>, \<open>realloc(p, 2^64 - 1)\<close> returns null in an
  unchanged state. Second, the bytes at \<open>ptr\<close> survive the inner \<open>malloc\<close> only
  when the new header is written elsewhere: after \<open>p = malloc(8); malloc(2^64 - 32)\<close>
  the break stands at 4120, which is \<open>p\<close>, the payload of the allocated block at 4096;
  the scan of \<open>malloc(16)\<close> finds no block, so \<open>growHeap\<close> sets up the new header at
  \<open>sbrk(0) = 4120\<close>, on the bytes that \<open>realloc(p, 16)\<close> is about to copy.
\<close>

theorem realloc_null_keeps_old_block:
  "heap_inv three_s1 [4096]
   \<and> BLOCK_HEADER 4120 = 4096
   \<and> \<not> bfree (blocks three_s1 4096)
   \<and> ALIGN4 18446744073709551615 = 0
   \<and> malloc FirstFit three_s1 18446744073709551615 = Some (Inr (0, three_s1))
   \<and> realloc FirstFit three_s1 4120 18446744073709551615 = Some (Inr (0, three_s1))
   \<and> malloc FirstFit three_s1 18446744073709551584 = Some (Inr (4152, low_s2))
   \<and> brk low_s2 = 4120
   \<and> \<not> bfree (blocks low_s2 4096)
   \<and> findFreeBlock FirstFit (register_exit_hook low_s2) (heapList low_s2) (ALIGN4 16)
       = Some (0, 4128, low_s2)
   \<and> sbrk 0 low_s2 = (4120, low_s2)"
proof -
  have n: "(18446744073709551608 :: 64 word) = - 8" "(18446744073709555712 :: 64 word) = 4096"
    by (simp_all add: word_unat_eq_iff)
  have "heap_inv three_s1 [4096]"
    by (simp add: heap_inv_def three_defs initial_def sizeof_block_def)
  moreover have "BLOCK_HEADER 4120 = 4096" by (simp add: BLOCK_HEADER_def sizeof_block_def)
  moreover have "\<not> bfree (blocks three_s1 4096)" by (simp add: three_defs)
  moreover have z: "ALIGN4 18446744073709551615 = 0" by (simp add: ALIGN4_def)
  moreover have m: "malloc FirstFit three_s1 18446744073709551615 = Some (Inr (0, three_s1))"
    using malloc_zero [OF z, of FirstFit three_s1]
    by (simp add: register_exit_hook_def three_defs)
  moreover have "realloc FirstFit three_s1 4120 18446744073709551615 = Some (Inr (0, three_s1))"
    by (simp add: realloc_def m)
  moreover have "malloc FirstFit three_s1 18446744073709551584 = Some (Inr (4152, low_s2))"
    by (simp add: run_defs three_defs low_s2_def n)
  moreover have "brk low_s2 = 4120" "\<not> bfree (blocks low_s2 4096)"
    by (simp_all add: low_s2_def three_defs)
  moreover have "findFreeBlock FirstFit (register_exit_hook low_s2) (heapList low_s2) (ALIGN4 16)
       = Some (0, 4128, low_s2)"
    by (simp add: run_defs three_defs low_s2_def)
  moreover have "sbrk 0 low_s2 = (4120, low_s2)"
    by (simp add: sbrk_def low_s2_def three_defs initial_def)
  ultimately show ?thesis by simp
qed

text \<open>
  C6, amended. \<open>realloc(NULL, size)\<close> is \<open>malloc(size)\<close>. \<open>realloc(ptr, 0)\<close>
  with \<open>ptr\<close> not null is \<open>free(ptr)\<close> followed by the return of null. Otherwise,
  when the inner \<open>malloc\<close> returns null, \<open>realloc\<close> returns null in the state
  \<open>malloc\<close> left, without a copy or a \<open>free\<close>. And when the inner \<open>malloc\<close>
  returns a pointer \<open>np\<close> that is not null, on an address-ordered heap on which
  \<open>ptr\<close> is the payload of an allocated block of the list, and for a size whose
  rounded value plus one header is below \<open>2^63\<close>: \<open>np\<close> differs from \<open>ptr\<close>;
  in the state \<open>malloc\<close> left the heap is address-ordered, the old block and the
  block of \<open>np\<close> are blocks of the list, the block of \<open>np\<close> is allocated and
  holds at least \<open>size\<close> bytes, these end at or below the break, and the bytes to
  copy do not overlap the bytes they are copied to; \<open>realloc\<close> returns \<open>np\<close> in
  the state that \<open>free(ptr)\<close> leaves after the \<open>memcpy\<close> of
  \<open>min (old block's size) size\<close> bytes in that state; there the first \<open>min (old block's size) size\<close> bytes at
  \<open>np\<close> are the bytes that were at \<open>ptr\<close> before the call, the old block is free,
  the header of the block of \<open>np\<close> is as \<open>malloc\<close> left it, and \<open>num_frees\<close>
  has grown by one.
\<close>

theorem realloc_cases:
  "realloc strat s 0 size0 = malloc strat s size0
   \<and> (ptr \<noteq> 0 \<longrightarrow>
        realloc strat s ptr 0 =
          (case free s ptr of None \<Rightarrow> None | Some (Inl e) \<Rightarrow> Some (Inl e)
           | Some (Inr s') \<Rightarrow> Some (Inr (0, s'))))
   \<and> (ptr \<noteq> 0 \<and> size0 \<noteq> 0 \<and> malloc strat s size0 = Some (Inr (0, s1))
        \<longrightarrow> realloc strat s ptr size0 = Some (Inr (0, s1)))
   \<and> (heap_inv s as \<and> unat (ALIGN4 size0) + 24 < 2 ^ 63 \<and> ptr \<noteq> 0 \<and> size0 \<noteq> 0
        \<and> BLOCK_HEADER ptr \<in> set as \<and> \<not> bfree (blocks s (BLOCK_HEADER ptr))
        \<and> malloc strat s size0 = Some (Inr (np, s1)) \<and> np \<noteq> 0
        \<longrightarrow> np \<noteq> ptr
          \<and> (\<exists>as1. heap_inv s1 as1 \<and> BLOCK_HEADER ptr \<in> set as1 \<and> BLOCK_HEADER np \<in> set as1)
          \<and> \<not> bfree (blocks s1 (BLOCK_HEADER np))
          \<and> size0 \<le> bsize (blocks s1 (BLOCK_HEADER np))
          \<and> unat np + unat size0 \<le> unat (brk s1)
          \<and> (unat ptr + unat (min (bsize (blocks s (BLOCK_HEADER ptr))) size0) \<le> unat np
               \<or> unat np + unat (min (bsize (blocks s (BLOCK_HEADER ptr))) size0) \<le> unat ptr)
          \<and> (\<exists>s3. free (memcpy np ptr (min (bsize (blocks s (BLOCK_HEADER ptr))) size0) s1) ptr
                      = Some (Inr s3)
                \<and> realloc strat s ptr size0 = Some (Inr (np, s3))
                \<and> (\<forall>i. i < unat (min (bsize (blocks s (BLOCK_HEADER ptr))) size0)
                      \<longrightarrow> bytes s3 (np + of_nat i) = bytes s (ptr + of_nat i))
                \<and> bfree (blocks s3 (BLOCK_HEADER ptr))
                \<and> blocks s3 (BLOCK_HEADER np) = blocks s1 (BLOCK_HEADER np)
                \<and> num_frees s3 = num_frees s1 + 1))"
proof (intro conjI impI)
  show "realloc strat s 0 size0 = malloc strat s size0" by (simp add: realloc_def)
  show "realloc strat s ptr 0 =
          (case free s ptr of None \<Rightarrow> None | Some (Inl e) \<Rightarrow> Some (Inl e)
           | Some (Inr s') \<Rightarrow> Some (Inr (0, s')))" if "ptr \<noteq> 0"
    using that by (simp add: realloc_def)
  show "realloc strat s ptr size0 = Some (Inr (0, s1))"
    if "ptr \<noteq> 0 \<and> size0 \<noteq> 0 \<and> malloc strat s size0 = Some (Inr (0, s1))"
    using that by (simp add: realloc_def)
next
  assume h: "heap_inv s as \<and> unat (ALIGN4 size0) + 24 < 2 ^ 63 \<and> ptr \<noteq> 0 \<and> size0 \<noteq> 0
        \<and> BLOCK_HEADER ptr \<in> set as \<and> \<not> bfree (blocks s (BLOCK_HEADER ptr))
        \<and> malloc strat s size0 = Some (Inr (np, s1)) \<and> np \<noteq> 0"
  let ?old = "BLOCK_HEADER ptr"
  let ?new = "BLOCK_HEADER np"
  have pd: "BLOCK_DATA ?old = ptr" by (simp add: BLOCK_DATA_def BLOCK_HEADER_def)
  from h have inv: "heap_inv s as" and m: "malloc strat s size0 = Some (Inr (np, s1))"
    and old: "?old \<in> set as" "\<not> bfree (blocks s ?old)"
    and bound: "unat (ALIGN4 size0) + 24 < 2 ^ 63" and np0: "np \<noteq> 0" and p0: "ptr \<noteq> 0"
    by simp_all
  from malloc_inv [OF inv, of strat size0] m
  have all: "bytes s1 = bytes s
      \<and> (\<forall>a\<in>set as. \<not> bfree (blocks s a) \<longrightarrow>
            bsize (blocks s1 a) = bsize (blocks s a) \<and> \<not> bfree (blocks s1 a)
            \<and> np \<noteq> BLOCK_DATA a)
      \<and> (np \<noteq> 0 \<longrightarrow> \<not> bfree (blocks s1 ?new) \<and> ALIGN4 size0 \<le> bsize (blocks s1 ?new))
      \<and> (unat (ALIGN4 size0) + 24 < 2 ^ 63 \<longrightarrow>
            (\<exists>as'. heap_inv s1 as' \<and> set as \<subseteq> set as' \<and> (np \<noteq> 0 \<longrightarrow> ?new \<in> set as')))"
    by simp
  from all have by1: "bytes s1 = bytes s" by simp
  from all old have osz: "bsize (blocks s1 ?old) = bsize (blocks s ?old)"
    and ofr: "\<not> bfree (blocks s1 ?old)" and fresh: "np \<noteq> BLOCK_DATA ?old" by blast+
  from all np0 have nfr: "\<not> bfree (blocks s1 ?new)"
    and nsz: "ALIGN4 size0 \<le> bsize (blocks s1 ?new)" by simp_all
  from all bound np0 obtain as1 where inv1: "heap_inv s1 as1" and sub: "set as \<subseteq> set as1"
    and nin: "?new \<in> set as1" by blast
  have oin: "?old \<in> set as1" using old(1) sub by blast
  have anz: "ALIGN4 size0 \<noteq> 0"
  proof
    assume "ALIGN4 size0 = 0"
    from malloc_zero [OF this, of strat s] m np0 show False by simp
  qed
  have fit: "size0 \<le> bsize (blocks s1 ?new)" using ALIGN4_ge [OF anz] nsz by simp
  have bl: "blist (blocks s1) (heapList s1) as1 (unat (brk s1))"
    using inv1 by (simp add: heap_inv_def)
  define k where "k = min (bsize (blocks s ?old)) size0"
  have n: "(if bsize (blocks s1 ?old) < size0 then bsize (blocks s1 ?old) else size0) = k"
    unfolding k_def using osz by (auto simp add: min_def)
  let ?s2 = "memcpy np ptr k s1"
  have bl2: "blist (blocks ?s2) (heapList ?s2) as1 (unat (brk s1))" using bl by simp
  have nf2: "\<not> bfree (blocks ?s2 ?old)" using ofr by simp
  from free_blist [OF bl2 p0 nf2] obtain h' n where
    fr: "free ?s2 ptr
          = Some (Inr (?s2\<lparr>blocks := h', num_coalesces := n, num_frees := num_frees ?s2 + 1\<rparr>))"
    and bf: "bfree (h' ?old)"
    and keep: "\<forall>x. x \<noteq> ?old \<and> \<not> bfree (blocks ?s2 x) \<longrightarrow> h' x = blocks ?s2 x" by blast
  define s3 where "s3 = ?s2\<lparr>blocks := h', num_coalesces := n, num_frees := num_frees ?s2 + 1\<rparr>"
  have fr': "free (memcpy np ptr k s1) ptr = Some (Inr s3)" unfolding s3_def by (rule fr)
  have r: "realloc strat s ptr size0 = Some (Inr (np, s3))"
    using p0 h m np0 fr' by (simp add: realloc_def Let_def n split del: if_split)
  have cp: "\<forall>i. i < unat k \<longrightarrow> bytes s3 (np + of_nat i) = bytes s (ptr + of_nat i)"
    unfolding s3_def using by1 by (simp add: memcpy_bytes)
  have ne: "np \<noteq> ptr" using fresh pd by simp
  then have hne: "?new \<noteq> ?old" by (simp add: BLOCK_HEADER_def)
  have kept: "blocks s3 ?new = blocks s1 ?new" unfolding s3_def using keep hne nfr by simp
  have nfs: "num_frees s3 = num_frees s1 + 1" unfolding s3_def by (simp add: memcpy_def)
  have bf3: "bfree (blocks s3 ?old)" unfolding s3_def using bf by simp
  show "np \<noteq> ptr" by (rule ne)
  show "\<exists>as1. heap_inv s1 as1 \<and> ?old \<in> set as1 \<and> ?new \<in> set as1"
    using inv1 oin nin by blast
  show "\<not> bfree (blocks s1 ?new)" by (rule nfr)
  show "size0 \<le> bsize (blocks s1 ?new)" by (rule fit)
  have nd: "BLOCK_DATA ?new = np" by (simp add: BLOCK_DATA_def BLOCK_HEADER_def)
  have npu: "unat np = unat ?new + 24" using heap_inv_payload(1) [OF inv1 nin] nd by simp
  have ptu: "unat ptr = unat ?old + 24" using heap_inv_payload(1) [OF inv1 oin] pd by simp
  have kn: "unat k \<le> unat (bsize (blocks s1 ?new))" "unat k \<le> unat (bsize (blocks s1 ?old))"
    using fit osz unfolding k_def by (simp_all add: word_le_nat_alt min_def)
  show "unat np + unat size0 \<le> unat (brk s1)"
    using heap_inv_payload(2) [OF inv1 nin] nd fit by (simp add: word_le_nat_alt)
  from blist_separated [OF bl oin nin] hne
  have "unat ?new + 24 + unat (bsize (blocks s1 ?new)) \<le> unat ?old
        \<or> unat ?old + 24 + unat (bsize (blocks s1 ?old)) \<le> unat ?new" by simp
  then have "unat ptr + unat k \<le> unat np \<or> unat np + unat k \<le> unat ptr"
    using npu ptu kn by linarith
  then show "unat ptr + unat (min (bsize (blocks s ?old)) size0) \<le> unat np
        \<or> unat np + unat (min (bsize (blocks s ?old)) size0) \<le> unat ptr"
    unfolding k_def .
  show "\<exists>s3. free (memcpy np ptr (min (bsize (blocks s ?old)) size0) s1) ptr = Some (Inr s3)
          \<and> realloc strat s ptr size0 = Some (Inr (np, s3))
          \<and> (\<forall>i. i < unat (min (bsize (blocks s ?old)) size0)
                \<longrightarrow> bytes s3 (np + of_nat i) = bytes s (ptr + of_nat i))
          \<and> bfree (blocks s3 ?old)
          \<and> blocks s3 ?new = blocks s1 ?new
          \<and> num_frees s3 = num_frees s1 + 1"
    using fr' r cp bf3 kept nfs unfolding k_def by blast
qed

theorem realloc_cases_witness:
  "heap_inv copy_s0 [4096, 4128, 4160]
   \<and> realloc FirstFit copy_s0 0 16 = malloc FirstFit copy_s0 16
   \<and> malloc FirstFit copy_s0 16 = Some (Inr (4216, copy_s1))
   \<and> (\<exists>s'. realloc FirstFit copy_s0 4152 0 = Some (Inr (0, s')))
   \<and> malloc FirstFit copy_s0 18446744073709551615 = Some (Inr (0, copy_s0))
   \<and> realloc FirstFit copy_s0 4152 18446744073709551615 = Some (Inr (0, copy_s0))
   \<and> bytes copy_s0 4152 = 56 \<and> bytes copy_s0 4216 = 120
   \<and> (\<exists>as1. heap_inv copy_s1 as1 \<and> 4128 \<in> set as1 \<and> 4192 \<in> set as1)
   \<and> unat (4216 :: addr) + unat (16 :: size_t) \<le> unat (brk copy_s1)
   \<and> (\<exists>s3. free (memcpy 4216 4152 8 copy_s1) 4152 = Some (Inr s3)
          \<and> realloc FirstFit copy_s0 4152 16 = Some (Inr (4216, s3))
          \<and> bytes s3 (4216 + of_nat 0) = bytes copy_s0 (4152 + of_nat 0)
          \<and> bytes s3 (4216 + of_nat 7) = bytes copy_s0 (4152 + of_nat 7)
          \<and> bfree (blocks s3 4128)
          \<and> blocks s3 4192 = \<lparr>bsize = 16, bnext = 0, bfree = False\<rparr>
          \<and> num_frees s3 = 1)"
proof -
  note d = copy_s0_def copy_s1_def three_defs
  have i: "heap_inv copy_s0 [4096, 4128, 4160]"
    by (simp add: heap_inv_def d initial_def sizeof_block_def)
  have m: "malloc FirstFit copy_s0 16 = Some (Inr (4216, copy_s1))"
    by (simp add: run_defs d)
  have hd: "BLOCK_HEADER 4152 = 4128" "BLOCK_HEADER 4216 = 4192"
    by (simp_all add: BLOCK_HEADER_def sizeof_block_def)
  have o: "\<not> bfree (blocks copy_s0 4128)" "bsize (blocks copy_s0 4128) = 8"
    "blocks copy_s1 4192 = \<lparr>bsize = 16, bnext = 0, bfree = False\<rparr>" "num_frees copy_s1 = 0"
    by (simp_all add: d initial_def)
  have a: "unat (ALIGN4 16) + 24 < 2 ^ 63" by (simp add: ALIGN4_def)
  have z: "ALIGN4 18446744073709551615 = 0" by (simp add: ALIGN4_def)
  have mz: "malloc FirstFit copy_s0 18446744073709551615 = Some (Inr (0, copy_s0))"
    using malloc_zero [OF z, of FirstFit copy_s0] by (simp add: register_exit_hook_def d)
  have mn: "min (8 :: 64 word) 16 = 8" by simp
  note t = realloc_cases [where strat = FirstFit and s = copy_s0 and ptr = 4152
      and as = "[4096, 4128, 4160]"]
  have r1: "realloc FirstFit copy_s0 0 16 = malloc FirstFit copy_s0 16"
    using t [where ?size0.0 = 16] by blast
  have "\<exists>s'. free copy_s0 4152 = Some (Inr s')"
    by (simp add: run_defs d)
  then have r2: "\<exists>s'. realloc FirstFit copy_s0 4152 0 = Some (Inr (0, s'))"
    using t [where ?size0.0 = 0] by auto
  have r3: "realloc FirstFit copy_s0 4152 18446744073709551615 = Some (Inr (0, copy_s0))"
    using t [where ?size0.0 = 18446744073709551615 and ?s1.0 = copy_s0] mz by simp
  from t [where ?size0.0 = 16 and np = 4216 and ?s1.0 = copy_s1] i a m hd o
  have l: "\<exists>as1. heap_inv copy_s1 as1 \<and> 4128 \<in> set as1 \<and> 4192 \<in> set as1"
    and bw: "unat (4216 :: addr) + unat (16 :: size_t) \<le> unat (brk copy_s1)"
    and "\<exists>s3. free (memcpy 4216 4152 (min 8 16) copy_s1) 4152 = Some (Inr s3)
          \<and> realloc FirstFit copy_s0 4152 16 = Some (Inr (4216, s3))
          \<and> (\<forall>i. i < unat (min (8 :: 64 word) 16)
                \<longrightarrow> bytes s3 (4216 + of_nat i) = bytes copy_s0 (4152 + of_nat i))
          \<and> bfree (blocks s3 4128)
          \<and> blocks s3 4192 = \<lparr>bsize = 16, bnext = 0, bfree = False\<rparr>
          \<and> num_frees s3 = 0 + 1"
    by simp_all
  then obtain s3 where
    f: "free (memcpy 4216 4152 8 copy_s1) 4152 = Some (Inr s3)"
    and r: "realloc FirstFit copy_s0 4152 16 = Some (Inr (4216, s3))"
    and c: "\<forall>i. i < unat (8 :: 64 word)
              \<longrightarrow> bytes s3 (4216 + of_nat i) = bytes copy_s0 (4152 + of_nat i)"
    and k: "bfree (blocks s3 4128)" "blocks s3 4192 = \<lparr>bsize = 16, bnext = 0, bfree = False\<rparr>"
      "num_frees s3 = 1"
    unfolding mn by auto
  have c0: "bytes s3 (4216 + of_nat 0) = bytes copy_s0 (4152 + of_nat 0)"
    using c by (rule allE [of _ 0]) simp
  have c7: "bytes s3 (4216 + of_nat 7) = bytes copy_s0 (4152 + of_nat 7)"
    using c by (rule allE [of _ 7]) simp
  have b: "bytes copy_s0 4152 = 56" "bytes copy_s0 4216 = 120" by (simp_all add: d)
  from f r c0 c7 k have e: "\<exists>s3. free (memcpy 4216 4152 8 copy_s1) 4152 = Some (Inr s3)
          \<and> realloc FirstFit copy_s0 4152 16 = Some (Inr (4216, s3))
          \<and> bytes s3 (4216 + of_nat 0) = bytes copy_s0 (4152 + of_nat 0)
          \<and> bytes s3 (4216 + of_nat 7) = bytes copy_s0 (4152 + of_nat 7)
          \<and> bfree (blocks s3 4128)
          \<and> blocks s3 4192 = \<lparr>bsize = 16, bnext = 0, bfree = False\<rparr>
          \<and> num_frees s3 = 1"
    by blast
  from i r1 m r2 mz r3 b l bw e show ?thesis by blast
qed

text \<open>
  C9, as the claim states it: every public operation keeps the list address-ordered.
  This fails for a request whose rounded size plus one header wraps around. After
  \<open>malloc(8)\<close> the heap is address-ordered. \<open>malloc(2^64 - 24)\<close> then asks the
  operating system for \<open>24 + (2^64 - 24) = 0\<close> bytes, gets the break 4128 back and
  sets up a block of \<open>2^64 - 24\<close> bytes there. After \<open>free\<close> of that block, the same
  request finds it, the split test \<open>size + sizeof(struct _block) < next->size\<close> holds
  because the sum is 0, and the carved block is the block itself: its \<open>next\<close> now
  points to itself, not to a higher address.
\<close>

theorem huge_request_breaks_order:
  "heap_inv three_s1 [4096]
   \<and> malloc FirstFit three_s1 18446744073709551592 = Some (Inr (4152, huge_s2))
   \<and> free huge_s2 4152 = Some (Inr huge_s3)
   \<and> malloc FirstFit huge_s3 18446744073709551592 = Some (Inr (4152, huge_s4))
   \<and> heapList huge_s4 = 4096
   \<and> bnext (blocks huge_s4 4096) = 4128
   \<and> bnext (blocks huge_s4 4128) = 4128"
proof -
  have n: "(18446744073709555744 :: 64 word) = 4128"
    "(- 24 :: 64 word) = 18446744073709551592"
    "(18446744073709551616 :: 64 word) = 0"
    by (simp_all add: word_unat_eq_iff)
  have "heap_inv three_s1 [4096]"
    by (simp add: heap_inv_def three_defs initial_def sizeof_block_def)
  moreover have "malloc FirstFit three_s1 18446744073709551592 = Some (Inr (4152, huge_s2))"
    by (simp add: run_defs three_defs huge_defs n)
  moreover have "free huge_s2 4152 = Some (Inr huge_s3)"
    by (simp add: run_defs three_defs huge_defs n)
  moreover have "malloc FirstFit huge_s3 18446744073709551592 = Some (Inr (4152, huge_s4))"
    by (simp add: run_defs three_defs huge_defs n)
  moreover have "heapList huge_s4 = 4096" "bnext (blocks huge_s4 4096) = 4128"
    "bnext (blocks huge_s4 4128) = 4128"
    by (simp_all add: three_defs huge_defs)
  ultimately show ?thesis by simp
qed

text \<open>
  C9, amended. The initial state is address-ordered. On an address-ordered heap, under
  each of the four strategies the scan terminates, returns null or a block of the list,
  and when it returns null it reports the last block of the list (null for the empty
  list), so that growth links the new block after the tail. A split of a block of the
  list links the carved block right after it, in front of its former successor, and
  keeps the heap address-ordered; the coalescing pass ends, only removes blocks from the
  list and keeps the heap address-ordered. \<open>malloc\<close>, \<open>calloc\<close> and
  \<open>realloc\<close> end and, when they return, leave an address-ordered heap, provided the
  rounded size of the request plus one header is below \<open>2^63\<close> (it then neither wraps
  nor turns negative as the increment passed to \<open>sbrk\<close>); \<open>free\<close> and \<open>realloc\<close>
  take null or the payload pointer of a block of the list, and \<open>free\<close> ends and, when
  it returns, leaves an address-ordered heap.
\<close>

theorem heap_stays_address_ordered:
  "(0 < b \<and> b \<le> m \<and> unat m < 2 ^ 63 \<longrightarrow> heap_inv (initial b m) [])
   \<and> (heap_inv s as \<longrightarrow>
        (\<exists>c l. findFreeBlock strat s (heapList s) sz = Some (c, l, s)
           \<and> (c = 0 \<or> c \<in> set as)
           \<and> (c = 0 \<longrightarrow> l = (if as = [] then 0 else last as))))
   \<and> (heap_inv s as \<and> c \<in> set as \<and> sz \<le> bsize (blocks s c)
        \<and> sz + sizeof_block < bsize (blocks s c) \<longrightarrow>
        bnext (blocks (split_block c sz s) c) = c + sizeof_block + sz
        \<and> bnext (blocks (split_block c sz s) (c + sizeof_block + sz)) = bnext (blocks s c)
        \<and> (\<exists>as'. heap_inv (split_block c sz s) as'
               \<and> set as' = insert (c + sizeof_block + sz) (set as)))
   \<and> (heap_inv s as \<longrightarrow>
        (\<exists>s' as'. coalesce s (heapList s) = Some s' \<and> heap_inv s' as'
           \<and> set as' \<subseteq> set as))
   \<and> (heap_inv s as \<and> unat (ALIGN4 size0) + 24 < 2 ^ 63 \<longrightarrow>
        (\<exists>r. malloc strat s size0 = Some r
           \<and> (\<forall>p s'. r = Inr (p, s') \<longrightarrow> (\<exists>as'. heap_inv s' as'))))
   \<and> (heap_inv s as \<and> (ptr = 0 \<or> BLOCK_HEADER ptr \<in> set as) \<longrightarrow>
        (\<exists>r. free s ptr = Some r
           \<and> (\<forall>s'. r = Inr s' \<longrightarrow> (\<exists>as'. heap_inv s' as'))))
   \<and> (heap_inv s as \<and> unat (ALIGN4 (nmemb * size0)) + 24 < 2 ^ 63 \<longrightarrow>
        (\<exists>r. calloc strat s nmemb size0 = Some r
           \<and> (\<forall>p s'. r = Inr (p, s') \<longrightarrow> (\<exists>as'. heap_inv s' as'))))
   \<and> (heap_inv s as \<and> (ptr = 0 \<or> BLOCK_HEADER ptr \<in> set as)
        \<and> unat (ALIGN4 size0) + 24 < 2 ^ 63 \<longrightarrow>
        (\<exists>r. realloc strat s ptr size0 = Some r
           \<and> (\<forall>p s'. r = Inr (p, s') \<longrightarrow> (\<exists>as'. heap_inv s' as'))))"
proof (intro conjI impI)
  show "heap_inv (initial b m) []" if "0 < b \<and> b \<le> m \<and> unat m < 2 ^ 63"
    using that initial_inv by blast
  show "\<exists>c l. findFreeBlock strat s (heapList s) sz = Some (c, l, s)
           \<and> (c = 0 \<or> c \<in> set as)
           \<and> (c = 0 \<longrightarrow> l = (if as = [] then 0 else last as))" if "heap_inv s as"
    using findFreeBlock_inv [OF that, of strat sz] by blast
  show "bnext (blocks (split_block c sz s) c) = c + sizeof_block + sz"
    "bnext (blocks (split_block c sz s) (c + sizeof_block + sz)) = bnext (blocks s c)"
    "\<exists>as'. heap_inv (split_block c sz s) as'
       \<and> set as' = insert (c + sizeof_block + sz) (set as)"
    if "heap_inv s as \<and> c \<in> set as \<and> sz \<le> bsize (blocks s c)
        \<and> sz + sizeof_block < bsize (blocks s c)"
    using that split_keeps_inv [of s as c sz] by blast+
  show "\<exists>s' as'. coalesce s (heapList s) = Some s' \<and> heap_inv s' as' \<and> set as' \<subseteq> set as"
    if "heap_inv s as"
    using that coalesce_keeps_inv by blast
  show "\<exists>r. malloc strat s size0 = Some r
           \<and> (\<forall>p s'. r = Inr (p, s') \<longrightarrow> (\<exists>as'. heap_inv s' as'))"
    if "heap_inv s as \<and> unat (ALIGN4 size0) + 24 < 2 ^ 63"
    using that malloc_keeps_inv by blast
  show "\<exists>r. free s ptr = Some r \<and> (\<forall>s'. r = Inr s' \<longrightarrow> (\<exists>as'. heap_inv s' as'))"
    if "heap_inv s as \<and> (ptr = 0 \<or> BLOCK_HEADER ptr \<in> set as)"
    using that free_keeps_inv by blast
  show "\<exists>r. calloc strat s nmemb size0 = Some r
           \<and> (\<forall>p s'. r = Inr (p, s') \<longrightarrow> (\<exists>as'. heap_inv s' as'))"
    if "heap_inv s as \<and> unat (ALIGN4 (nmemb * size0)) + 24 < 2 ^ 63"
    using that calloc_keeps_inv by blast
  show "\<exists>r. realloc strat s ptr size0 = Some r
           \<and> (\<forall>p s'. r = Inr (p, s') \<longrightarrow> (\<exists>as'. heap_inv s' as'))"
    if "heap_inv s as \<and> (ptr = 0 \<or> BLOCK_HEADER ptr \<in> set as)
        \<and> unat (ALIGN4 size0) + 24 < 2 ^ 63"
    using that realloc_keeps_inv by blast
qed


theorem heap_stays_address_ordered_witness:
  "heap_inv (initial 4096 65536) []
   \<and> heap_inv three_s3 [4096, 4128, 4160]
   \<and> findFreeBlock BestFit three_s3 (heapList three_s3) 8 = Some (0, 4160, three_s3)
   \<and> malloc NextFit three_s0 8 = Some (Inr (4120, three_s1))
   \<and> (\<exists>as'. heap_inv three_s1 as')
   \<and> free three_s3 4120 = Some (Inr three_s4)
   \<and> (\<exists>as'. heap_inv three_s4 as')
   \<and> (\<exists>s'. calloc WorstFit dirty_s0 2 4 = Some (Inr (4120, s')) \<and> (\<exists>as'. heap_inv s' as'))
   \<and> (\<exists>s'. realloc FirstFit copy_s0 4152 16 = Some (Inr (4216, s')) \<and> (\<exists>as'. heap_inv s' as'))
   \<and> heap_inv split_heap [4096, 4184]
   \<and> bnext (blocks (split_block 4096 8 split_heap) 4096) = 4128
   \<and> bnext (blocks (split_block 4096 8 split_heap) 4128) = 4184
   \<and> (\<exists>as'. heap_inv (split_block 4096 8 split_heap) as' \<and> set as' = {4096, 4128, 4184})
   \<and> heap_inv three_s6 [4096, 4160]
   \<and> (\<exists>s' as'. coalesce three_s6 (heapList three_s6) = Some s' \<and> heap_inv s' as'
          \<and> set as' \<subseteq> {4096, 4160})"
proof -
  note d = three_defs copy_s0_def dirty_s0_def
  note t = heap_stays_address_ordered
  have i4: "heap_inv split_heap [4096, 4184]"
    by (simp add: heap_inv_def split_heap_def d initial_def sizeof_block_def)
  have "bsize (blocks split_heap 4096) = 64" by (simp add: split_heap_def)
  with t [where s = split_heap and as = "[4096, 4184]" and c = 4096 and sz = 8] i4
  have sp: "bnext (blocks (split_block 4096 8 split_heap) 4096) = 4128"
    "bnext (blocks (split_block 4096 8 split_heap) 4128) = 4184"
    "\<exists>as'. heap_inv (split_block 4096 8 split_heap) as' \<and> set as' = {4096, 4128, 4184}"
    by (auto simp add: sizeof_block_def split_heap_def insert_commute)
  have i26: "heap_inv three_s6 [4096, 4160]"
    by (simp add: heap_inv_def d initial_def sizeof_block_def)
  with t [where s = three_s6 and as = "[4096, 4160]"]
  have co: "\<exists>s' as'. coalesce three_s6 (heapList three_s6) = Some s' \<and> heap_inv s' as'
          \<and> set as' \<subseteq> {4096, 4160}"
    by simp
  have i0: "heap_inv (initial 4096 65536) []"
    using t [where b = 4096 and m = 65536] by simp
  then have i0': "heap_inv three_s0 []" by (simp add: three_s0_def)
  have i3: "heap_inv three_s3 [4096, 4128, 4160]"
    by (simp add: heap_inv_def d initial_def sizeof_block_def)
  have i6: "heap_inv copy_s0 [4096, 4128, 4160]"
    by (simp add: heap_inv_def d initial_def sizeof_block_def)
  have i7: "heap_inv dirty_s0 []" by (simp add: heap_inv_def d initial_def)
  have a: "unat (ALIGN4 8) + 24 < 2 ^ 63" "unat (ALIGN4 (2 * 4)) + 24 < 2 ^ 63"
    "unat (ALIGN4 16) + 24 < 2 ^ 63"
    by (simp_all add: ALIGN4_def)
  have f: "findFreeBlock BestFit three_s3 (heapList three_s3) 8 = Some (0, 4160, three_s3)"
    using t [where s = three_s3 and as = "[4096, 4128, 4160]" and strat = BestFit and sz = 8] i3
    by (simp add: run_defs d)
  have m: "malloc NextFit three_s0 8 = Some (Inr (4120, three_s1))" by (simp add: run_defs d)
  with t [where s = three_s0 and as = "[]" and strat = NextFit and ?size0.0 = 8] i0' a
  have m': "\<exists>as'. heap_inv three_s1 as'" by simp
  have fr: "free three_s3 4120 = Some (Inr three_s4)" by (simp add: run_defs d)
  have "BLOCK_HEADER 4120 = 4096" by (simp add: BLOCK_HEADER_def sizeof_block_def)
  with t [where s = three_s3 and as = "[4096, 4128, 4160]" and ptr = 4120] i3 fr
  have fr': "\<exists>as'. heap_inv three_s4 as'" by simp
  have "\<exists>s'. calloc WorstFit dirty_s0 2 4 = Some (Inr (4120, s'))"
    by (simp add: run_defs calloc_def d)
  with t [where s = dirty_s0 and as = "[]" and strat = WorstFit and nmemb = 2 and ?size0.0 = 4]
    i7 a
  have c: "\<exists>s'. calloc WorstFit dirty_s0 2 4 = Some (Inr (4120, s')) \<and> (\<exists>as'. heap_inv s' as')"
    by auto
  have "\<exists>s'. realloc FirstFit copy_s0 4152 16 = Some (Inr (4216, s'))"
    by (simp add: run_defs realloc_def memcpy_def d)
  moreover have "BLOCK_HEADER 4152 = 4128" by (simp add: BLOCK_HEADER_def sizeof_block_def)
  ultimately
  have r: "\<exists>s'. realloc FirstFit copy_s0 4152 16 = Some (Inr (4216, s')) \<and> (\<exists>as'. heap_inv s' as')"
    using t [where s = copy_s0 and as = "[4096, 4128, 4160]" and strat = FirstFit
        and ptr = 4152 and ?size0.0 = 16] i6 a
    by auto
  from i0 i3 f m m' fr fr' c r i4 sp i26 co show ?thesis by blast
qed

end
